theory Spec2Isabelle
  imports Main "HOL-Library.Multiset"
begin

section \<open>The Sudoku generator of Zad\_8.py\<close>

text \<open>
  The module keeps a 9x9 grid of Python integers (0 is an empty cell) and three lists of
  nine bit masks. Python integers are unbounded, so cells and masks are \<^typ>\<open>int\<close>, whose
  bit operations are the two's-complement ones Python uses. Exceptions are values of
  \<open>error\<close>; a function that can raise returns \<open>error + 'a\<close>.
\<close>

unbundle bit_operations_syntax

datatype error =
  IndexError | ValueError | OverflowError | RecursionError | RuntimeError | AssertionError

type_synonym Grid = "int list list"

type_synonym masks = "int list \<times> int list \<times> int list"

subsection \<open>The random source\<close>

text \<open>
  \<open>random.Random\<close> belongs to the standard library. Its state is a value of an arbitrary
  type \<open>'g\<close> and its three operations used by the module are parameters:
  \<open>shuffle_perm g n\<close> is the rearrangement of positions that \<open>rng.shuffle\<close> applies to a
  list of length \<open>n\<close> in state \<open>g\<close> (with the state afterwards), \<open>randrange g n\<close> is
  \<open>rng.randrange(n)\<close>, and \<open>from_seed s\<close> is the state of \<open>random.Random(s)\<close> for an
  integer \<open>s\<close>. \<open>random.Random(None)\<close> starts from operating-system entropy: that state
  is an explicit argument \<open>entropy\<close> of the functions that create a generator.
\<close>

record 'g rng_ops =
  shuffle_perm :: "'g \<Rightarrow> nat \<Rightarrow> nat list \<times> 'g"
  randrange :: "'g \<Rightarrow> int \<Rightarrow> int \<times> 'g"
  from_seed :: "int \<Rightarrow> 'g"

definition shuffle :: "'g rng_ops \<Rightarrow> 'g \<Rightarrow> 'a list \<Rightarrow> 'a list \<times> 'g" where
  "shuffle ops g xs =
     (let (p, g') = shuffle_perm ops g (length xs) in (map ((!) xs) p, g'))"

definition rng_ok :: "'g rng_ops \<Rightarrow> bool" where
  "rng_ok ops \<longleftrightarrow> (\<forall>g n. mset (fst (shuffle_perm ops g n)) = mset [0..<n])"

definition Random :: "'g rng_ops \<Rightarrow> 'g \<Rightarrow> int option \<Rightarrow> 'g" where
  "Random ops entropy seed = (case seed of None \<Rightarrow> entropy | Some s \<Rightarrow> from_seed ops s)"

subsection \<open>Masks\<close>

definition ALL_MASK :: int where
  "ALL_MASK = push_bit 9 1 - 1"

text \<open>\<open>bit(d)\<close> is \<open>1 << (d - 1)\<close>. Python raises ValueError when the shift count
  \<open>d - 1\<close> is negative, and OverflowError (or MemoryError) when it is so large that the
  interpreter cannot build the result, as for \<open>1 << 2**70\<close>. Where that limit lies depends
  on the platform, so it is a parameter \<open>room\<close> of the model: a shift by up to
  \<open>8 + room\<close> bits is carried out (8 bits are what the digits 1..9 need, and any
  interpreter can do as much), a larger one raises, and the model has the one error
  OverflowError for it. \<open>bit_of\<close> is the value of \<open>bit(d)\<close> where it is computed; the one
  call whose argument is not known to lie in 1..9, in \<open>build_masks\<close>, raises in the
  model.\<close>

definition bit_of :: "int \<Rightarrow> int" where
  "bit_of d = push_bit (nat (d - 1)) 1"

definition box_index :: "nat \<Rightarrow> nat \<Rightarrow> nat" where
  "box_index r c = (r div 3) * 3 + (c div 3)"

definition cells81 :: "(nat \<times> nat) list" where
  "cells81 = concat (map (\<lambda>r. map (\<lambda>c. (r, c)) [0..<9]) [0..<9])"

fun build_step :: "nat \<Rightarrow> Grid \<Rightarrow> masks \<Rightarrow> nat \<times> nat \<Rightarrow> error + masks" where
  "build_step room grid (row, col, box) (r, c) =
     (if r < length grid \<and> c < length (grid ! r) then
        (let v = grid ! r ! c in
         if v \<noteq> 0 then
           (if v - 1 < 0 then Inl ValueError
            else if 8 + int room < v - 1 then Inl OverflowError
            else
              (let m = bit_of v; b = box_index r c in
               Inr (row[r := row ! r OR m], col[c := col ! c OR m], box[b := box ! b OR m])))
         else Inr (row, col, box))
      else Inl IndexError)"

fun build_loop :: "nat \<Rightarrow> Grid \<Rightarrow> (nat \<times> nat) list \<Rightarrow> masks \<Rightarrow> error + masks" where
  "build_loop room grid [] ms = Inr ms"
| "build_loop room grid (rc # rcs) ms =
     (case build_step room grid ms rc of
        Inl e \<Rightarrow> Inl e
      | Inr ms' \<Rightarrow> build_loop room grid rcs ms')"

definition build_masks :: "nat \<Rightarrow> Grid \<Rightarrow> error + masks" where
  "build_masks room grid =
     build_loop room grid cells81 (replicate 9 0, replicate 9 0, replicate 9 0)"

definition candidates_mask :: "int list \<Rightarrow> int list \<Rightarrow> int list \<Rightarrow> nat \<Rightarrow> nat \<Rightarrow> int" where
  "candidates_mask row col box r c =
     (let used = row ! r OR col ! c OR box ! (box_index r c) in ALL_MASK AND NOT used)"

definition digits_from_mask :: "int \<Rightarrow> int list" where
  "digits_from_mask m = filter (\<lambda>d. m AND bit_of d \<noteq> 0) [1..9]"

definition digits_from_mask_rng :: "'g rng_ops \<Rightarrow> int \<Rightarrow> 'g \<Rightarrow> int list \<times> 'g" where
  "digits_from_mask_rng ops m g = shuffle ops g (digits_from_mask m)"

text \<open>\<open>int.bit_count()\<close>: the number of ones in the binary representation of the
  absolute value.\<close>

fun bit_count_nat :: "nat \<Rightarrow> nat" where
  "bit_count_nat n = (if n = 0 then 0 else n mod 2 + bit_count_nat (n div 2))"

definition bit_count :: "int \<Rightarrow> nat" where
  "bit_count m = bit_count_nat (nat \<bar>m\<bar>)"

subsection \<open>The cell selector\<close>

text \<open>The two nested loops of \<open>find_mrv_cell\<close> visit \<open>cells81\<close> in order; \<open>best\<close> and
  \<open>best_cnt\<close> are the loop's variables, and the three early returns end the scan. The
  searches call it only after \<open>build_masks\<close> has read all 81 cells, so \<open>grid[r][c]\<close> is
  in range.\<close>

fun mrv_scan :: "Grid \<Rightarrow> int list \<Rightarrow> int list \<Rightarrow> int list \<Rightarrow> (nat \<times> nat) list \<Rightarrow>
    (nat \<times> nat \<times> int) option \<Rightarrow> nat \<Rightarrow> (nat \<times> nat \<times> int) option" where
  "mrv_scan grid row col box [] best best_cnt = best"
| "mrv_scan grid row col box ((r, c) # rcs) best best_cnt =
     (if grid ! r ! c = 0 then
        (let m = candidates_mask row col box r c; cnt = bit_count m in
         if cnt = 0 then Some (r, c, 0)
         else if cnt < best_cnt then
           (if cnt = 1 then Some (r, c, m)
            else mrv_scan grid row col box rcs (Some (r, c, m)) cnt)
         else mrv_scan grid row col box rcs best best_cnt)
      else mrv_scan grid row col box rcs best best_cnt)"

definition find_mrv_cell :: "Grid \<Rightarrow> int list \<Rightarrow> int list \<Rightarrow> int list \<Rightarrow>
    (nat \<times> nat \<times> int) option" where
  "find_mrv_cell grid row col box = mrv_scan grid row col box cells81 None 10"

subsection \<open>The two searches\<close>

text \<open>The variables \<open>grid\<close>, \<open>row\<close>, \<open>col\<close>, \<open>box\<close> that the nested \<open>backtrack\<close> closures
  share and mutate are the fields of a record, passed in and returned.\<close>

record search =
  sgrid :: Grid
  srow :: "int list"
  scol :: "int list"
  sbox :: "int list"

text \<open>The assignment \<open>grid[r][c] = v\<close>.\<close>

definition set_cell :: "Grid \<Rightarrow> nat \<Rightarrow> nat \<Rightarrow> int \<Rightarrow> Grid" where
  "set_cell grid r c v = grid[r := (grid ! r)[c := v]]"

definition place :: "search \<Rightarrow> nat \<Rightarrow> nat \<Rightarrow> int \<Rightarrow> search" where
  "place s r c d =
     (let md = bit_of d; b = box_index r c in
      \<lparr>sgrid = set_cell (sgrid s) r c d,
       srow = (srow s)[r := srow s ! r OR md],
       scol = (scol s)[c := scol s ! c OR md],
       sbox = (sbox s)[b := sbox s ! b OR md]\<rparr>)"

definition unplace :: "search \<Rightarrow> nat \<Rightarrow> nat \<Rightarrow> int \<Rightarrow> search" where
  "unplace s r c d =
     (let md = bit_of d; b = box_index r c in
      \<lparr>sgrid = set_cell (sgrid s) r c 0,
       srow = (srow s)[r := srow s ! r AND NOT md],
       scol = (scol s)[c := scol s ! c AND NOT md],
       sbox = (sbox s)[b := sbox s ! b AND NOT md]\<rparr>)"

text \<open>The recursion of \<open>backtrack\<close> is bounded by a budget of nested calls: a call with
  no budget left raises RecursionError, as the interpreter does at its recursion limit.
  \<open>count_loop\<close> is the \<open>for d in ...\<close> loop of the counting search, with \<open>tot\<close> its
  running sum \<open>total\<close>.\<close>

fun count_backtrack :: "nat \<Rightarrow> int \<Rightarrow> search \<Rightarrow> error + (int \<times> search)"
  and count_loop :: "nat \<Rightarrow> int \<Rightarrow> nat \<Rightarrow> nat \<Rightarrow> int list \<Rightarrow> int \<Rightarrow> search \<Rightarrow>
    error + (int \<times> search)" where
  "count_backtrack 0 limit s = Inl RecursionError"
| "count_backtrack (Suc n) limit s =
     (case find_mrv_cell (sgrid s) (srow s) (scol s) (sbox s) of
        None \<Rightarrow> Inr (1, s)
      | Some (r, c, m) \<Rightarrow>
          if m = 0 then Inr (0, s)
          else count_loop n limit r c (digits_from_mask m) 0 s)"
| "count_loop n limit r c [] tot s = Inr (tot, s)"
| "count_loop n limit r c (d # ds) tot s =
     (case count_backtrack n limit (place s r c d) of
        Inl e \<Rightarrow> Inl e
      | Inr (k, s') \<Rightarrow>
          (let tot' = tot + k; s'' = unplace s' r c d in
           if tot' \<ge> limit then Inr (tot', s'')
           else count_loop n limit r c ds tot' s''))"

definition count_solutions :: "nat \<Rightarrow> nat \<Rightarrow> Grid \<Rightarrow> int \<Rightarrow> error + (int \<times> Grid)" where
  "count_solutions room depth grid limit =
     (case build_masks room grid of
        Inl e \<Rightarrow> Inl e
      | Inr (row, col, box) \<Rightarrow>
          (case count_backtrack depth limit \<lparr>sgrid = grid, srow = row, scol = col, sbox = box\<rparr> of
             Inl e \<Rightarrow> Inl e
           | Inr (k, s) \<Rightarrow> Inr (k, sgrid s)))"

fun solve_backtrack :: "'g rng_ops \<Rightarrow> nat \<Rightarrow> search \<Rightarrow> 'g \<Rightarrow> error + (bool \<times> search \<times> 'g)"
  and solve_loop :: "'g rng_ops \<Rightarrow> nat \<Rightarrow> nat \<Rightarrow> nat \<Rightarrow> int list \<Rightarrow> search \<Rightarrow> 'g \<Rightarrow>
    error + (bool \<times> search \<times> 'g)" where
  "solve_backtrack ops 0 s g = Inl RecursionError"
| "solve_backtrack ops (Suc n) s g =
     (case find_mrv_cell (sgrid s) (srow s) (scol s) (sbox s) of
        None \<Rightarrow> Inr (True, s, g)
      | Some (r, c, m) \<Rightarrow>
          if m = 0 then Inr (False, s, g)
          else (let (ds, g') = digits_from_mask_rng ops m g in solve_loop ops n r c ds s g'))"
| "solve_loop ops n r c [] s g = Inr (False, s, g)"
| "solve_loop ops n r c (d # ds) s g =
     (case solve_backtrack ops n (place s r c d) g of
        Inl e \<Rightarrow> Inl e
      | Inr (ok, s', g') \<Rightarrow>
          if ok then Inr (True, s', g')
          else solve_loop ops n r c ds (unplace s' r c d) g')"

definition solve_one :: "'g rng_ops \<Rightarrow> nat \<Rightarrow> nat \<Rightarrow> Grid \<Rightarrow> 'g \<Rightarrow> error + (bool \<times> Grid \<times> 'g)" where
  "solve_one ops room depth grid g =
     (case build_masks room grid of
        Inl e \<Rightarrow> Inl e
      | Inr (row, col, box) \<Rightarrow>
          (case solve_backtrack ops depth \<lparr>sgrid = grid, srow = row, scol = col, sbox = box\<rparr> g of
             Inl e \<Rightarrow> Inl e
           | Inr (ok, s, g') \<Rightarrow> Inr (ok, sgrid s, g')))"

subsection \<open>Generation and digging\<close>

definition generate_full_grid :: "'g rng_ops \<Rightarrow> nat \<Rightarrow> nat \<Rightarrow> 'g \<Rightarrow> int option \<Rightarrow> error + Grid" where
  "generate_full_grid ops room depth entropy seed =
     (let rng = Random ops entropy seed; grid = replicate 9 (replicate 9 0) in
      case solve_one ops room depth grid rng of
        Inl e \<Rightarrow> Inl e
      | Inr (ok, grid', rng') \<Rightarrow> if \<not> ok then Inl RuntimeError else Inr grid')"

definition paired :: "bool \<Rightarrow> nat \<Rightarrow> nat \<Rightarrow> (nat \<times> nat) list" where
  "paired symmetry r c =
     (if \<not> symmetry then [(r, c)]
      else (let r2 = 8 - r; c2 = 8 - c in
            if (r, c) = (r2, c2) then [(r, c)] else [(r, c), (r2, c2)]))"

definition cell_at :: "Grid \<Rightarrow> nat \<Rightarrow> nat \<Rightarrow> error + int" where
  "cell_at puzzle r c =
     (if r < length puzzle \<and> c < length (puzzle ! r) then Inr (puzzle ! r ! c)
      else Inl IndexError)"

fun all_empty :: "Grid \<Rightarrow> (nat \<times> nat) list \<Rightarrow> error + bool" where
  "all_empty puzzle [] = Inr True"
| "all_empty puzzle ((rr, cc) # ts) =
     (case cell_at puzzle rr cc of
        Inl e \<Rightarrow> Inl e
      | Inr v \<Rightarrow> if v = 0 then all_empty puzzle ts else Inr False)"

fun backup_cells :: "Grid \<Rightarrow> (nat \<times> nat) list \<Rightarrow> error + (nat \<times> nat \<times> int) list" where
  "backup_cells puzzle [] = Inr []"
| "backup_cells puzzle ((rr, cc) # ts) =
     (case cell_at puzzle rr cc of
        Inl e \<Rightarrow> Inl e
      | Inr v \<Rightarrow>
          (case backup_cells puzzle ts of Inl e \<Rightarrow> Inl e | Inr bs \<Rightarrow> Inr ((rr, cc, v) # bs)))"

text \<open>The two writing loops run over \<open>backup\<close>, whose cells have just been read, so the
  assignments \<open>puzzle[rr][cc] = ...\<close> are in range.\<close>

fun clear_cells :: "Grid \<Rightarrow> (nat \<times> nat \<times> int) list \<Rightarrow> Grid" where
  "clear_cells puzzle [] = puzzle"
| "clear_cells puzzle ((rr, cc, v) # bs) = clear_cells (set_cell puzzle rr cc 0) bs"

fun restore_cells :: "Grid \<Rightarrow> (nat \<times> nat \<times> int) list \<Rightarrow> Grid" where
  "restore_cells puzzle [] = puzzle"
| "restore_cells puzzle ((rr, cc, v) # bs) =
     restore_cells (set_cell puzzle rr cc v) bs"

text \<open>One iteration of the loop \<open>for r, c in cells\<close>; \<open>tmp = deepcopy(puzzle)\<close> is the
  value \<open>puzzle\<close> itself, and what \<open>count_solutions\<close> does to \<open>tmp\<close> is dropped.\<close>

definition dig_step :: "nat \<Rightarrow> nat \<Rightarrow> bool \<Rightarrow> Grid \<Rightarrow> nat \<times> nat \<Rightarrow> error + Grid" where
  "dig_step room depth symmetry puzzle rc =
     (let targets = paired symmetry (fst rc) (snd rc) in
      case all_empty puzzle targets of
        Inl e \<Rightarrow> Inl e
      | Inr skip \<Rightarrow>
          if skip then Inr puzzle
          else
            (case backup_cells puzzle targets of
               Inl e \<Rightarrow> Inl e
             | Inr backup \<Rightarrow>
                 (let puzzle' = clear_cells puzzle backup in
                  case count_solutions room depth puzzle' 2 of
                    Inl e \<Rightarrow> Inl e
                  | Inr (k, tmp) \<Rightarrow>
                      if k \<noteq> 1 then Inr (restore_cells puzzle' backup) else Inr puzzle')))"

fun dig_loop :: "nat \<Rightarrow> nat \<Rightarrow> bool \<Rightarrow> Grid \<Rightarrow> (nat \<times> nat) list \<Rightarrow> error + Grid" where
  "dig_loop room depth symmetry puzzle [] = Inr puzzle"
| "dig_loop room depth symmetry puzzle (rc # rcs) =
     (case dig_step room depth symmetry puzzle rc of
        Inl e \<Rightarrow> Inl e
      | Inr puzzle' \<Rightarrow> dig_loop room depth symmetry puzzle' rcs)"

definition remove_cells_unique :: "'g rng_ops \<Rightarrow> nat \<Rightarrow> nat \<Rightarrow> Grid \<Rightarrow> 'g \<Rightarrow> bool \<Rightarrow>
    error + (Grid \<times> 'g)" where
  "remove_cells_unique ops room depth full rng symmetry =
     (let puzzle = full; (cells, rng') = shuffle ops rng cells81 in
      case dig_loop room depth symmetry puzzle cells of
        Inl e \<Rightarrow> Inl e
      | Inr puzzle' \<Rightarrow> Inr (puzzle', rng'))"

definition count_zeros :: "Grid \<Rightarrow> int" where
  "count_zeros puzzle = int (length (filter (\<lambda>(r, c). puzzle ! r ! c = 0) cells81))"

text \<open>The loop \<open>for _ in range(attempts)\<close> with its three \<open>best\<close> variables.\<close>

fun attempts_loop :: "'g rng_ops \<Rightarrow> nat \<Rightarrow> nat \<Rightarrow> 'g \<Rightarrow> bool \<Rightarrow> nat \<Rightarrow> 'g \<Rightarrow>
    Grid option \<Rightarrow> Grid option \<Rightarrow> int \<Rightarrow> error + (Grid option \<times> Grid option)" where
  "attempts_loop ops room depth entropy symmetry 0 rng best_puzzle best_solution best_zeros =
     Inr (best_puzzle, best_solution)"
| "attempts_loop ops room depth entropy symmetry (Suc k) rng best_puzzle best_solution best_zeros =
     (let (sd, rng1) = randrange ops rng (10 ^ 9) in
      case generate_full_grid ops room depth entropy (Some sd) of
        Inl e \<Rightarrow> Inl e
      | Inr solution \<Rightarrow>
          (case remove_cells_unique ops room depth solution rng1 symmetry of
             Inl e \<Rightarrow> Inl e
           | Inr (puzzle, rng2) \<Rightarrow>
               (let zeros = count_zeros puzzle in
                if zeros > best_zeros then
                  attempts_loop ops room depth entropy symmetry k rng2 (Some puzzle) (Some solution) zeros
                else
                  attempts_loop ops room depth entropy symmetry k rng2 best_puzzle best_solution
                    best_zeros)))"

definition generate_puzzle :: "'g rng_ops \<Rightarrow> nat \<Rightarrow> nat \<Rightarrow> 'g \<Rightarrow> int \<Rightarrow> bool \<Rightarrow> int option \<Rightarrow>
    error + (Grid \<times> Grid)" where
  "generate_puzzle ops room depth entropy attempts symmetry seed =
     (let rng = Random ops entropy seed in
      case attempts_loop ops room depth entropy symmetry (nat attempts) rng None None (- 1) of
        Inl e \<Rightarrow> Inl e
      | Inr (Some best_puzzle, Some best_solution) \<Rightarrow> Inr (best_puzzle, best_solution)
      | Inr _ \<Rightarrow> Inl AssertionError)"

subsection \<open>Grids, units and solutions\<close>

definition num_empty :: "Grid \<Rightarrow> nat" where
  "num_empty grid = length (filter (\<lambda>(r, c). grid ! r ! c = 0) cells81)"

definition row_cells :: "nat \<Rightarrow> (nat \<times> nat) list" where
  "row_cells r = map (\<lambda>c. (r, c)) [0..<9]"

definition col_cells :: "nat \<Rightarrow> (nat \<times> nat) list" where
  "col_cells c = map (\<lambda>r. (r, c)) [0..<9]"

definition box_cells :: "nat \<Rightarrow> (nat \<times> nat) list" where
  "box_cells b = filter (\<lambda>(r, c). box_index r c = b) cells81"

definition all_units :: "(nat \<times> nat) list list" where
  "all_units = map row_cells [0..<9] @ map col_cells [0..<9] @ map box_cells [0..<9]"

definition unit_values :: "Grid \<Rightarrow> (nat \<times> nat) list \<Rightarrow> int list" where
  "unit_values grid u = map (\<lambda>(r, c). grid ! r ! c) u"

definition nine_by_nine :: "Grid \<Rightarrow> bool" where
  "nine_by_nine grid \<longleftrightarrow> length grid = 9 \<and> (\<forall>row \<in> set grid. length row = 9)"

text \<open>A well-formed grid: 9x9, every value in 0..9, and no digit twice in a row, a column
  or a box.\<close>

definition well_formed :: "Grid \<Rightarrow> bool" where
  "well_formed grid \<longleftrightarrow>
     nine_by_nine grid \<and>
     (\<forall>row \<in> set grid. \<forall>v \<in> set row. 0 \<le> v \<and> v \<le> 9) \<and>
     (\<forall>u \<in> set all_units. distinct (filter (\<lambda>v. v \<noteq> 0) (unit_values grid u)))"

text \<open>A complete valid grid: every row, column and box holds each digit 1..9 exactly once.\<close>

definition complete_valid :: "Grid \<Rightarrow> bool" where
  "complete_valid grid \<longleftrightarrow>
     nine_by_nine grid \<and>
     (\<forall>u \<in> set all_units. \<forall>d \<in> set [1..9]. count_list (unit_values grid u) d = 1)"

definition agrees :: "Grid \<Rightarrow> Grid \<Rightarrow> bool" where
  "agrees grid t \<longleftrightarrow> (\<forall>(r, c) \<in> set cells81. grid ! r ! c \<noteq> 0 \<longrightarrow> t ! r ! c = grid ! r ! c)"

definition solutions :: "Grid \<Rightarrow> Grid set" where
  "solutions grid = {t. complete_valid t \<and> agrees grid t}"

text \<open>The number of solutions of a grid, as an integer.\<close>

definition nsol :: "Grid \<Rightarrow> int" where
  "nsol g = int (card (solutions g))"

text \<open>The invariant that ties the three mask lists to the grid: bit \<open>k\<close> of a unit's mask
  is set exactly when digit \<open>k + 1\<close> stands in a cell of that unit; \<open>masks_upto S\<close> counts
  the cells of \<open>S\<close> only, as the loop of \<open>build_masks\<close> has it midway.\<close>

definition masks_upto :: "(nat \<times> nat) set \<Rightarrow> Grid \<Rightarrow> int list \<Rightarrow> int list \<Rightarrow> int list \<Rightarrow> bool" where
  "masks_upto S grid row col box \<longleftrightarrow>
     length row = 9 \<and> length col = 9 \<and> length box = 9 \<and>
     (\<forall>i < 9. \<forall>k. bit (row ! i) k \<longleftrightarrow> (\<exists>(r, c) \<in> S. r = i \<and> grid ! r ! c = int k + 1)) \<and>
     (\<forall>i < 9. \<forall>k. bit (col ! i) k \<longleftrightarrow> (\<exists>(r, c) \<in> S. c = i \<and> grid ! r ! c = int k + 1)) \<and>
     (\<forall>i < 9. \<forall>k. bit (box ! i) k \<longleftrightarrow>
        (\<exists>(r, c) \<in> S. box_index r c = i \<and> grid ! r ! c = int k + 1))"

definition masks_inv :: "Grid \<Rightarrow> int list \<Rightarrow> int list \<Rightarrow> int list \<Rightarrow> bool" where
  "masks_inv grid row col box \<longleftrightarrow> masks_upto (set cells81) grid row col box"

text \<open>The grids whose 81 cells \<open>build_masks\<close> can turn into bits.\<close>

definition cells_in_range :: "nat \<Rightarrow> Grid \<Rightarrow> bool" where
  "cells_in_range room grid \<longleftrightarrow>
     (\<forall>(r, c) \<in> set cells81. 0 \<le> grid ! r ! c \<and> grid ! r ! c \<le> 9 + int room)"

definition no_clash :: "Grid \<Rightarrow> bool" where
  "no_clash grid \<longleftrightarrow>
     (\<forall>r < 9. \<forall>c < 9. \<forall>r' < 9. \<forall>c' < 9.
        grid ! r ! c \<noteq> 0 \<and> grid ! r ! c = grid ! r' ! c' \<and>
        (r = r' \<or> c = c' \<or> box_index r c = box_index r' c') \<longrightarrow> r = r' \<and> c = c')"

text \<open>What the searches keep true of their state, and the digits that may stand in a cell.\<close>

definition search_inv :: "search \<Rightarrow> bool" where
  "search_inv s \<longleftrightarrow>
     well_formed (sgrid s) \<and> masks_inv (sgrid s) (srow s) (scol s) (sbox s)"

definition peers :: "nat \<times> nat \<Rightarrow> nat \<times> nat \<Rightarrow> bool" where
  "peers x y \<longleftrightarrow>
     fst x = fst y \<or> snd x = snd y \<or> box_index (fst x) (snd x) = box_index (fst y) (snd y)"

definition legal :: "Grid \<Rightarrow> nat \<Rightarrow> nat \<Rightarrow> int \<Rightarrow> bool" where
  "legal g r c d \<longleftrightarrow> 1 \<le> d \<and> d \<le> 9 \<and>
     (\<forall>r' < 9. \<forall>c' < 9. peers (r, c) (r', c') \<longrightarrow> g ! r' ! c' \<noteq> d)"

subsection \<open>Example inputs\<close>

definition example_solution :: Grid where
  "example_solution =
    [[1, 2, 3, 4, 5, 6, 7, 8, 9],
     [4, 5, 6, 7, 8, 9, 1, 2, 3],
     [7, 8, 9, 1, 2, 3, 4, 5, 6],
     [2, 3, 4, 5, 6, 7, 8, 9, 1],
     [5, 6, 7, 8, 9, 1, 2, 3, 4],
     [8, 9, 1, 2, 3, 4, 5, 6, 7],
     [3, 4, 5, 6, 7, 8, 9, 1, 2],
     [6, 7, 8, 9, 1, 2, 3, 4, 5],
     [9, 1, 2, 3, 4, 5, 6, 7, 8]]"

definition example_puzzle :: Grid where
  "example_puzzle =
    [[0, 1, 0, 7, 5, 2, 9, 8, 4],
     [8, 7, 5, 9, 3, 4, 6, 1, 2],
     [9, 4, 2, 6, 1, 8, 0, 0, 7],
     [3, 9, 7, 2, 4, 5, 8, 6, 1],
     [1, 0, 4, 3, 6, 7, 2, 0, 0],
     [0, 0, 6, 8, 9, 1, 7, 4, 3],
     [5, 6, 9, 1, 2, 3, 4, 7, 8],
     [7, 2, 1, 4, 8, 6, 0, 0, 0],
     [4, 3, 8, 5, 7, 9, 1, 2, 6]]"




text \<open>A small deterministic random source, used where a concrete one is needed: its
  shuffle reverses a list.\<close>

definition example_ops :: "nat rng_ops" where
  "example_ops = \<lparr>shuffle_perm = (\<lambda>g n. (rev [0..<n], Suc g)),
                  randrange = (\<lambda>g n. (int g mod n, Suc g)),
                  from_seed = (\<lambda>s. nat \<bar>s\<bar>)\<rparr>"

section \<open>Lemmas\<close>

subsection \<open>Bits and masks\<close>

declare bit_count_nat.simps [simp del]

lemma bit_bit_of: "bit (bit_of d) k \<longleftrightarrow> k = nat (d - 1)"
  by (simp add: bit_of_def bit_exp_iff)

lemma and_bit_of_iff: "(m AND bit_of d \<noteq> 0) \<longleftrightarrow> bit m (nat (d - 1))"
  by (simp add: bit_of_def and_exp_eq_0_iff_not_bit)

lemma bit_ALL_MASK: "bit ALL_MASK k \<longleftrightarrow> k < 9"
proof -
  have h: "ALL_MASK = mask 9" by (simp add: ALL_MASK_def mask_eq_exp_minus_1)
  have "bit (mask 9 :: int) k \<longleftrightarrow> k < 9" by (simp only: bit_mask_iff) simp
  then show ?thesis by (simp only: h)
qed

lemma bit_candidates_mask:
  "bit (candidates_mask row col box r c) k \<longleftrightarrow>
     k < 9 \<and> \<not> bit (row ! r) k \<and> \<not> bit (col ! c) k \<and> \<not> bit (box ! box_index r c) k"
  by (auto simp: candidates_mask_def Let_def bit_and_iff bit_or_iff bit_not_iff bit_ALL_MASK)

lemma in_digits_from_mask:
  "d \<in> set (digits_from_mask m) \<longleftrightarrow> 1 \<le> d \<and> d \<le> 9 \<and> bit m (nat (d - 1))"
  by (auto simp: digits_from_mask_def and_bit_of_iff)

lemma distinct_digits_from_mask: "distinct (digits_from_mask m)"
  by (simp add: digits_from_mask_def)

lemma undo_bit:
  assumes "\<not> bit a (nat (d - 1))"
  shows "(a OR bit_of d) AND NOT (bit_of d) = a"
proof (rule bit_eqI)
  fix k
  show "bit ((a OR bit_of d) AND NOT (bit_of d)) k = bit a k"
    using assms by (auto simp: bit_and_iff bit_or_iff bit_not_iff bit_bit_of)
qed

lemma bit_count_nat_0: "bit_count_nat n = 0 \<longleftrightarrow> n = 0"
proof (induction n rule: bit_count_nat.induct)
  case (1 n)
  show ?case
  proof (cases "n = 0")
    case True then show ?thesis by (simp add: bit_count_nat.simps)
  next
    case False
    have "n mod 2 = 0 \<Longrightarrow> n div 2 \<noteq> 0" using False by presburger
    with False 1 show ?thesis by (subst bit_count_nat.simps) auto
  qed
qed

lemma bit_count_0: "bit_count m = 0 \<longleftrightarrow> m = 0"
  by (simp add: bit_count_def bit_count_nat_0)

subsection \<open>Cells, grid updates and the cell selector\<close>

lemma set_cells81: "set cells81 = {(r, c). r < 9 \<and> c < 9}"
  by (auto simp: cells81_def)

lemma in_cells81: "(r, c) \<in> set cells81 \<longleftrightarrow> r < 9 \<and> c < 9"
  by (simp add: set_cells81)

lemma distinct_cells81: "distinct cells81"
  unfolding cells81_def
  by (rule distinct_concat) (auto simp: distinct_map inj_on_def)

lemma length_cells81: "length cells81 = 81"
  by (simp add: cells81_def length_concat comp_def sum_list_triv)

lemma nine_by_nine_row:
  assumes "nine_by_nine g" "r < 9"
  shows "length (g ! r) = 9"
proof -
  have "r < length g" using assms by (simp add: nine_by_nine_def)
  then have "g ! r \<in> set g" by simp
  then show ?thesis using assms(1) by (simp add: nine_by_nine_def)
qed

lemma nine_by_nine_set_cell:
  assumes "nine_by_nine g"
  shows "nine_by_nine (set_cell g r c v)"
proof (cases "r < length g")
  case True
  then have "length (g ! r) = 9" using assms by (simp add: nine_by_nine_def)
  then show ?thesis
    using assms set_update_subset_insert[of g r "(g ! r)[c := v]"]
    by (auto simp: nine_by_nine_def set_cell_def)
next
  case False
  then show ?thesis using assms by (simp add: set_cell_def list_update_beyond)
qed

lemma nth_set_cell:
  "nine_by_nine g \<Longrightarrow> r < 9 \<Longrightarrow> c < 9 \<Longrightarrow>
     set_cell g r c v ! r' ! c' = (if r' = r \<and> c' = c then v else g ! r' ! c')"
  by (auto simp: set_cell_def nine_by_nine_def nth_list_update)

lemma set_cell_same: "g ! r ! c = v \<Longrightarrow> set_cell g r c v = g"
  by (auto simp: set_cell_def)

lemma set_cell_twice: "set_cell (set_cell g r c v) r c w = set_cell g r c w"
  by (cases "r < length g") (auto simp: set_cell_def list_update_beyond)

lemma length_filter_less:
  assumes "distinct xs" "x \<in> set xs" "P x" "\<not> Q x" "\<And>y. y \<in> set xs \<Longrightarrow> Q y \<Longrightarrow> P y"
  shows "length (filter Q xs) < length (filter P xs)"
proof -
  have "{y \<in> set xs. Q y} \<subset> {y \<in> set xs. P y}" using assms by auto
  then have "card {y \<in> set xs. Q y} < card {y \<in> set xs. P y}"
    by (intro psubset_card_mono) auto
  moreover have "length (filter Q xs) = card {y \<in> set xs. Q y}"
    using assms(1) by (metis distinct_card distinct_filter set_filter)
  moreover have "length (filter P xs) = card {y \<in> set xs. P y}"
    using assms(1) by (metis distinct_card distinct_filter set_filter)
  ultimately show ?thesis by simp
qed

lemma num_empty_set_cell:
  assumes "nine_by_nine g" "r < 9" "c < 9" "g ! r ! c = 0" "d \<noteq> 0"
  shows "num_empty (set_cell g r c d) < num_empty g"
  unfolding num_empty_def
  by (rule length_filter_less[where x = "(r, c)"])
     (use assms in \<open>auto simp: nth_set_cell in_cells81 distinct_cells81 split: if_splits\<close>)

lemma num_empty_le: "num_empty g \<le> 81"
  unfolding num_empty_def using length_filter_le[of _ cells81] by (simp add: length_cells81)

lemma num_empty_0: "num_empty g = 0 \<longleftrightarrow> (\<forall>r < 9. \<forall>c < 9. g ! r ! c \<noteq> 0)"
  by (auto simp: num_empty_def filter_empty_conv set_cells81)

lemma bit_count_nat_le: "n < 2 ^ k \<Longrightarrow> bit_count_nat n \<le> k"
proof (induction k arbitrary: n)
  case 0
  then show ?case by (simp add: bit_count_nat.simps)
next
  case (Suc k)
  have "n div 2 < 2 ^ k" using Suc.prems by simp
  then have "bit_count_nat (n div 2) \<le> k" by (rule Suc.IH)
  moreover have "n mod 2 \<le> 1" by simp
  ultimately show ?case by (subst bit_count_nat.simps) simp
qed

lemma candidates_mask_range: "0 \<le> candidates_mask row col box r c \<and> candidates_mask row col box r c \<le> 511"
proof -
  have "(0::int) \<le> ALL_MASK" "ALL_MASK = 511" by (simp_all add: ALL_MASK_def)
  then show ?thesis
    unfolding candidates_mask_def Let_def
    by (metis AND_lower AND_upper1)
qed

lemma bit_count_candidates_le: "bit_count (candidates_mask row col box r c) \<le> 9"
proof -
  let ?m = "candidates_mask row col box r c"
  have "(2::nat) ^ 9 = 512" by simp
  then have "nat \<bar>?m\<bar> < 2 ^ 9" using candidates_mask_range[of row col box r c] by linarith
  then show ?thesis unfolding bit_count_def by (rule bit_count_nat_le)
qed

lemma mrv_scan_Some:
  "mrv_scan g row col box cs best bc = Some (r, c, m) \<Longrightarrow>
     best = Some (r, c, m) \<or>
     ((r, c) \<in> set cs \<and> g ! r ! c = 0 \<and> m = candidates_mask row col box r c)"
proof (induction cs arbitrary: best bc)
  case Nil
  then show ?case by simp
next
  case (Cons x cs)
  obtain r' c' where x: "x = (r', c')" by (cases x)
  show ?case
    using Cons.prems Cons.IH unfolding x
    by (fastforce simp: Let_def bit_count_0 split: if_splits)
qed

lemma mrv_scan_None:
  "mrv_scan g row col box cs best bc = None \<Longrightarrow>
     best = None \<and> (9 < bc \<longrightarrow> (\<forall>(r, c) \<in> set cs. g ! r ! c \<noteq> 0))"
proof (induction cs arbitrary: best bc)
  case Nil
  then show ?case by simp
next
  case (Cons x cs)
  obtain r' c' where x: "x = (r', c')" by (cases x)
  show ?case
  proof (cases "g ! r' ! c' = 0")
    case False
    with Cons.prems Cons.IH[of best bc] show ?thesis unfolding x by auto
  next
    case True
    let ?m = "candidates_mask row col box r' c'"
    have le: "bit_count ?m \<le> 9" by (rule bit_count_candidates_le)
    show ?thesis
    proof (cases "bit_count ?m < bc")
      case True
      with \<open>g ! r' ! c' = 0\<close> Cons.prems Cons.IH[of "Some (r', c', ?m)" "bit_count ?m"]
      show ?thesis unfolding x by (auto simp: Let_def split: if_splits)
    next
      case False
      with \<open>g ! r' ! c' = 0\<close> Cons.prems Cons.IH[of best bc] le
      show ?thesis unfolding x by (auto simp: Let_def split: if_splits)
    qed
  qed
qed

lemma find_mrv_cell_Some:
  "find_mrv_cell g row col box = Some (r, c, m) \<Longrightarrow>
     r < 9 \<and> c < 9 \<and> g ! r ! c = 0 \<and> m = candidates_mask row col box r c"
  unfolding find_mrv_cell_def by (drule mrv_scan_Some) (auto simp: in_cells81)

lemma find_mrv_cell_None:
  "find_mrv_cell g row col box = None \<Longrightarrow> r < 9 \<Longrightarrow> c < 9 \<Longrightarrow> g ! r ! c \<noteq> 0"
  unfolding find_mrv_cell_def by (drule mrv_scan_None) (auto simp: set_cells81)

lemma mrv_scan_full:
  "\<forall>(r, c) \<in> set cs. g ! r ! c \<noteq> 0 \<Longrightarrow> mrv_scan g row col box cs best bc = best"
  by (induction cs arbitrary: best bc) auto

lemma find_mrv_cell_full:
  "(\<And>r c. r < 9 \<Longrightarrow> c < 9 \<Longrightarrow> g ! r ! c \<noteq> 0) \<Longrightarrow> find_mrv_cell g row col box = None"
  unfolding find_mrv_cell_def by (rule mrv_scan_full) (auto simp: set_cells81)

subsection \<open>Undoing a placement; the searches return\<close>

lemma mset_shuffle:
  assumes "rng_ok ops"
  shows "mset (fst (shuffle ops g xs)) = mset xs"
proof -
  obtain p g' where p: "shuffle_perm ops g (length xs) = (p, g')" by (cases "shuffle_perm ops g (length xs)")
  have "mset p = mset [0..<length xs]" using assms p unfolding rng_ok_def by (metis fst_conv)
  then have "mset (map ((!) xs) p) = mset (map ((!) xs) [0..<length xs])"
    by (metis mset_map)
  then show ?thesis by (simp add: shuffle_def p map_nth)
qed

lemma set_shuffle: "rng_ok ops \<Longrightarrow> set (fst (shuffle ops g xs)) = set xs"
  by (metis mset_shuffle set_mset_mset)

lemma legal_digit_bits:
  assumes "d \<in> set (digits_from_mask (candidates_mask row col box r c))"
  shows "1 \<le> d" "d \<le> 9" "\<not> bit (row ! r) (nat (d - 1))" "\<not> bit (col ! c) (nat (d - 1))"
    "\<not> bit (box ! box_index r c) (nat (d - 1))"
  using assms by (auto simp: in_digits_from_mask bit_candidates_mask)

lemma list_undo: "\<not> bit (xs ! i) (nat (d - 1)) \<Longrightarrow>
    xs[i := (xs[i := xs ! i OR bit_of d]) ! i AND NOT (bit_of d)] = xs"
  by (cases "i < length xs") (simp_all add: undo_bit list_update_beyond)

lemma unplace_place:
  assumes "sgrid s ! r ! c = 0"
    and "d \<in> set (digits_from_mask (candidates_mask (srow s) (scol s) (sbox s) r c))"
  shows "unplace (place s r c d) r c d = s"
proof -
  note b = legal_digit_bits[OF assms(2)]
  have "set_cell (set_cell (sgrid s) r c d) r c 0 = sgrid s"
    using assms(1) by (simp add: set_cell_twice set_cell_same)
  then show ?thesis
    using b(3-5) by (intro search.equality) (simp_all add: place_def unplace_def Let_def list_undo)
qed

lemma sgrid_place: "sgrid (place s r c d) = set_cell (sgrid s) r c d"
  by (simp add: place_def Let_def)

lemma count_loop_frame:
  assumes bt: "\<And>s'. nine_by_nine (sgrid s') \<Longrightarrow> num_empty (sgrid s') < n \<Longrightarrow>
      \<exists>k. count_backtrack n limit s' = Inr (k, s')"
    and s: "nine_by_nine (sgrid s)" "r < 9" "c < 9" "sgrid s ! r ! c = 0" "num_empty (sgrid s) \<le> n"
    and ds: "set ds \<subseteq> set (digits_from_mask (candidates_mask (srow s) (scol s) (sbox s) r c))"
  shows "\<exists>k. count_loop n limit r c ds tot s = Inr (k, s)"
  using ds
proof (induction ds arbitrary: tot)
  case Nil
  then show ?case by simp
next
  case (Cons d ds)
  have d: "d \<in> set (digits_from_mask (candidates_mask (srow s) (scol s) (sbox s) r c))"
    using Cons.prems by simp
  have "d \<noteq> 0" using legal_digit_bits(1)[OF d] by simp
  then have "num_empty (sgrid (place s r c d)) < n"
    using num_empty_set_cell[OF s(1-4), of d] s(5) by (simp add: sgrid_place)
  moreover have "nine_by_nine (sgrid (place s r c d))"
    using s(1) by (simp add: sgrid_place nine_by_nine_set_cell)
  ultimately obtain k where k: "count_backtrack n limit (place s r c d) = Inr (k, place s r c d)"
    using bt by blast
  have u: "unplace (place s r c d) r c d = s" by (rule unplace_place[OF s(4) d])
  from Cons.IH[of "tot + k"] Cons.prems obtain k' where
    "count_loop n limit r c ds (tot + k) s = Inr (k', s)" by auto
  then show ?case by (simp add: k u Let_def)
qed

lemma count_backtrack_frame:
  "nine_by_nine (sgrid s) \<Longrightarrow> num_empty (sgrid s) < n \<Longrightarrow>
     \<exists>k. count_backtrack n limit s = Inr (k, s)"
proof (induction n arbitrary: s)
  case 0
  then show ?case by simp
next
  case (Suc n)
  show ?case
  proof (cases "find_mrv_cell (sgrid s) (srow s) (scol s) (sbox s)")
    case None
    then show ?thesis by auto
  next
    case (Some cell)
    obtain r c m where cell: "cell = (r, c, m)" by (cases cell)
    note f = find_mrv_cell_Some[OF Some[unfolded cell]]
    show ?thesis
    proof (cases "m = 0")
      case True
      then show ?thesis by (auto simp: Some cell)
    next
      case False
      have "\<exists>k. count_loop n limit r c (digits_from_mask m) 0 s = Inr (k, s)"
      proof (rule count_loop_frame)
        show "set (digits_from_mask m) \<subseteq>
           set (digits_from_mask (candidates_mask (srow s) (scol s) (sbox s) r c))"
          using f by simp
      qed (use Suc f in auto)
      then show ?thesis by (simp add: Some cell False)
    qed
  qed
qed

lemma solve_loop_frame:
  assumes bt: "\<And>s' g. nine_by_nine (sgrid s') \<Longrightarrow> num_empty (sgrid s') < n \<Longrightarrow>
      \<exists>ok s'' g'. solve_backtrack ops n s' g = Inr (ok, s'', g') \<and> (\<not> ok \<longrightarrow> s'' = s')"
    and s: "nine_by_nine (sgrid s)" "r < 9" "c < 9" "sgrid s ! r ! c = 0" "num_empty (sgrid s) \<le> n"
    and ds: "set ds \<subseteq> set (digits_from_mask (candidates_mask (srow s) (scol s) (sbox s) r c))"
  shows "\<exists>ok s'' g'. solve_loop ops n r c ds s g = Inr (ok, s'', g') \<and> (\<not> ok \<longrightarrow> s'' = s)"
  using ds
proof (induction ds arbitrary: g)
  case Nil
  then show ?case by auto
next
  case (Cons d ds)
  have d: "d \<in> set (digits_from_mask (candidates_mask (srow s) (scol s) (sbox s) r c))"
    using Cons.prems by simp
  have "d \<noteq> 0" using legal_digit_bits(1)[OF d] by simp
  then have "num_empty (sgrid (place s r c d)) < n"
    using num_empty_set_cell[OF s(1-4), of d] s(5) by (simp add: sgrid_place)
  moreover have "nine_by_nine (sgrid (place s r c d))"
    using s(1) by (simp add: sgrid_place nine_by_nine_set_cell)
  ultimately obtain ok s'' g' where
    k: "solve_backtrack ops n (place s r c d) g = Inr (ok, s'', g')"
    and r: "\<not> ok \<longrightarrow> s'' = place s r c d"
    using bt by blast
  show ?case
  proof (cases ok)
    case True
    then show ?thesis by (auto simp: k)
  next
    case False
    then have u: "unplace s'' r c d = s" using r by (simp add: unplace_place[OF s(4) d])
    from Cons.IH[of g'] Cons.prems show ?thesis by (simp add: k False u)
  qed
qed

lemma solve_backtrack_frame:
  assumes "rng_ok ops"
  shows "nine_by_nine (sgrid s) \<Longrightarrow> num_empty (sgrid s) < n \<Longrightarrow>
     \<exists>ok s'' g'. solve_backtrack ops n s g = Inr (ok, s'', g') \<and> (\<not> ok \<longrightarrow> s'' = s)"
proof (induction n arbitrary: s g)
  case 0
  then show ?case by simp
next
  case (Suc n)
  show ?case
  proof (cases "find_mrv_cell (sgrid s) (srow s) (scol s) (sbox s)")
    case None
    then show ?thesis by auto
  next
    case (Some cell)
    obtain r c m where cell: "cell = (r, c, m)" by (cases cell)
    note f = find_mrv_cell_Some[OF Some[unfolded cell]]
    show ?thesis
    proof (cases "m = 0")
      case True
      then show ?thesis by (auto simp: Some cell)
    next
      case False
      obtain ds g1 where sh: "digits_from_mask_rng ops m g = (ds, g1)"
        by (cases "digits_from_mask_rng ops m g")
      have "set ds = set (digits_from_mask m)"
        using set_shuffle[OF assms, of g "digits_from_mask m"] sh
        by (simp add: digits_from_mask_rng_def)
      then have sub: "set ds \<subseteq>
           set (digits_from_mask (candidates_mask (srow s) (scol s) (sbox s) r c))"
        using f by simp
      have "\<exists>ok s'' g'. solve_loop ops n r c ds s g1 = Inr (ok, s'', g') \<and> (\<not> ok \<longrightarrow> s'' = s)"
        by (rule solve_loop_frame[OF _ _ _ _ _ _ sub]) (use Suc f in auto)
      then show ?thesis by (simp add: Some cell False sh)
    qed
  qed
qed

subsection \<open>Building the masks\<close>

lemma box_index_less: "r < 9 \<Longrightarrow> c < 9 \<Longrightarrow> box_index r c < 9"
  unfolding box_index_def by presburger

lemma cells_in_rangeD:
  "cells_in_range room g \<Longrightarrow> r < 9 \<Longrightarrow> c < 9 \<Longrightarrow> 0 \<le> g ! r ! c \<and> g ! r ! c \<le> 9 + int room"
  by (auto simp: cells_in_range_def set_cells81)

lemma bit_bit_of_pos: "1 \<le> v \<Longrightarrow> bit (bit_of v) k \<longleftrightarrow> v = int k + 1"
  by (auto simp: bit_bit_of)

lemma build_step_ok:
  assumes inv: "masks_upto S g row col box"
    and g: "nine_by_nine g" "cells_in_range room g" and rc: "r < 9" "c < 9"
  shows "\<exists>row' col' box'. build_step room g (row, col, box) (r, c) = Inr (row', col', box') \<and>
           masks_upto (insert (r, c) S) g row' col' box'"
proof -
  have len: "r < length g" "c < length (g ! r)"
    using g(1) rc nine_by_nine_row[OF g(1) rc(1)] by (simp_all add: nine_by_nine_def)
  have nn: "0 \<le> g ! r ! c" and up: "g ! r ! c \<le> 9 + int room"
    using cells_in_rangeD[OF g(2) rc] by simp_all
  have b: "box_index r c < 9" by (rule box_index_less[OF rc])
  show ?thesis
  proof (cases "g ! r ! c = 0")
    case True
    then have "masks_upto (insert (r, c) S) g row col box"
      using inv by (simp add: masks_upto_def)
    then show ?thesis using True len by simp
  next
    case False
    then have pos: "1 \<le> g ! r ! c" using nn by simp
    let ?m = "bit_of (g ! r ! c)"
    have "masks_upto (insert (r, c) S) g (row[r := row ! r OR ?m]) (col[c := col ! c OR ?m])
            (box[box_index r c := box ! box_index r c OR ?m])"
      using inv rc b unfolding masks_upto_def
      by (auto simp: nth_list_update bit_or_iff bit_bit_of_pos[OF pos])
    then show ?thesis using False len pos up by (simp add: Let_def)
  qed
qed

lemma build_loop_ok:
  assumes g: "nine_by_nine g" "cells_in_range room g"
  shows "masks_upto S g row col box \<Longrightarrow> set cs \<subseteq> set cells81 \<Longrightarrow>
     \<exists>row' col' box'. build_loop room g cs (row, col, box) = Inr (row', col', box') \<and>
           masks_upto (S \<union> set cs) g row' col' box'"
proof (induction cs arbitrary: S row col box)
  case Nil
  then show ?case by simp
next
  case (Cons x cs)
  obtain r c where x: "x = (r, c)" by (cases x)
  have rc: "r < 9" "c < 9" using Cons.prems(2) by (auto simp: x set_cells81)
  from build_step_ok[OF Cons.prems(1) g rc] obtain row' col' box' where
    st: "build_step room g (row, col, box) (r, c) = Inr (row', col', box')"
    and inv': "masks_upto (insert (r, c) S) g row' col' box'" by blast
  from Cons.IH[OF inv'] Cons.prems(2) obtain row'' col'' box'' where
    "build_loop room g cs (row', col', box') = Inr (row'', col'', box'')"
    "masks_upto (insert (r, c) S \<union> set cs) g row'' col'' box''" by auto
  then show ?case by (simp add: x st del: build_step.simps)
qed

lemma build_masks_ok:
  assumes "nine_by_nine g" "cells_in_range room g"
  shows "\<exists>row col box. build_masks room g = Inr (row, col, box) \<and> masks_inv g row col box"
proof -
  have "masks_upto {} g (replicate 9 0) (replicate 9 0) (replicate 9 0)"
    by (simp add: masks_upto_def)
  from build_loop_ok[OF assms this, of cells81] show ?thesis
    by (simp add: build_masks_def masks_inv_def)
qed

lemma build_loop_Inr:
  "build_loop room g cs ms = Inr ms' \<Longrightarrow> (r, c) \<in> set cs \<Longrightarrow>
     r < length g \<and> c < length (g ! r) \<and> 0 \<le> g ! r ! c \<and> g ! r ! c \<le> 9 + int room"
proof (induction cs arbitrary: ms)
  case Nil
  then show ?case by simp
next
  case (Cons x cs)
  obtain r' c' where x: "x = (r', c')" by (cases x)
  obtain row col box where ms: "ms = (row, col, box)" by (cases ms)
  from Cons.prems(1) obtain ms1 where st: "build_step room g ms x = Inr ms1"
    and rest: "build_loop room g cs ms1 = Inr ms'" by (auto split: sum.splits)
  show ?case
  proof (cases "(r, c) = x")
    case True
    with st show ?thesis unfolding x ms by (auto simp: Let_def split: if_splits)
  next
    case False
    with Cons.prems(2) Cons.IH[OF rest] show ?thesis by simp
  qed
qed

lemma build_loop_Inl:
  assumes g: "nine_by_nine g"
  shows "build_loop room g cs ms = Inl e \<Longrightarrow> set cs \<subseteq> set cells81 \<Longrightarrow>
    e = ValueError \<or> e = OverflowError"
proof (induction cs arbitrary: ms)
  case Nil
  then show ?case by simp
next
  case (Cons x cs)
  obtain r c where x: "x = (r, c)" by (cases x)
  obtain row col box where ms: "ms = (row, col, box)" by (cases ms)
  have rc: "r < 9" "c < 9" using Cons.prems(2) by (auto simp: x set_cells81)
  have len: "r < length g" "c < length (g ! r)"
    using g rc nine_by_nine_row[OF g rc(1)] by (simp_all add: nine_by_nine_def)
  show ?case
  proof (cases "build_step room g ms x")
    case (Inl e')
    then have "e' = ValueError \<or> e' = OverflowError"
      using len unfolding x ms by (auto simp: Let_def split: if_splits)
    with Inl Cons.prems(1) show ?thesis by simp
  next
    case (Inr ms1)
    with Cons.prems Cons.IH[of ms1] show ?thesis by simp
  qed
qed

lemma build_masks_bad:
  assumes "nine_by_nine g" "r < 9" "c < 9" "g ! r ! c < 0 \<or> 9 + int room < g ! r ! c"
  shows "\<exists>e. build_masks room g = Inl e \<and> (e = ValueError \<or> e = OverflowError)"
proof (cases "build_masks room g")
  case (Inl e)
  then show ?thesis using build_loop_Inl[OF assms(1), of room cells81 _ e] by (simp add: build_masks_def)
next
  case (Inr ms)
  then have "0 \<le> g ! r ! c \<and> g ! r ! c \<le> 9 + int room"
    using build_loop_Inr[of room g cells81 _ ms r c] assms(2,3)
    by (simp add: build_masks_def in_cells81)
  then show ?thesis using assms(4) by simp
qed

lemma build_masks_negative:
  assumes "nine_by_nine g" "r < 9" "c < 9" "g ! r ! c < 0"
    and "\<And>r c. r < 9 \<Longrightarrow> c < 9 \<Longrightarrow> g ! r ! c \<le> 9 + int room"
  shows "build_masks room g = Inl ValueError"
proof -
  have no: "e \<noteq> OverflowError" if "build_loop room g cs ms = Inl e" "set cs \<subseteq> set cells81" for cs ms e
    using that
  proof (induction cs arbitrary: ms)
    case Nil
    then show ?case by simp
  next
    case (Cons x cs)
    obtain r' c' where x: "x = (r', c')" by (cases x)
    obtain row col box where ms: "ms = (row, col, box)" by (cases ms)
    have rc: "r' < 9" "c' < 9" using Cons.prems(2) by (auto simp: x set_cells81)
    show ?case
    proof (cases "build_step room g ms x")
      case (Inl e')
      then have "e' \<noteq> OverflowError"
        using assms(5)[OF rc] unfolding x ms by (auto simp: Let_def split: if_splits)
      with Inl Cons.prems(1) show ?thesis by simp
    next
      case (Inr ms1)
      with Cons.prems Cons.IH[of ms1] show ?thesis by simp
    qed
  qed
  obtain e where e: "build_masks room g = Inl e" "e = ValueError \<or> e = OverflowError"
    using build_masks_bad[OF assms(1-3), of room] assms(4) by blast
  have "e \<noteq> OverflowError" using no[of cells81 _ e] e(1) by (simp add: build_masks_def)
  then show ?thesis using e by simp
qed

lemma count_solutions_total:
  assumes "nine_by_nine g" "cells_in_range room g" "81 < depth"
  shows "\<exists>k. count_solutions room depth g limit = Inr (k, g)"
proof -
  obtain row col box where b: "build_masks room g = Inr (row, col, box)"
    using build_masks_ok[OF assms(1,2)] by blast
  let ?s = "\<lparr>sgrid = g, srow = row, scol = col, sbox = box\<rparr>"
  have "num_empty (sgrid ?s) < depth" using num_empty_le[of g] assms(3) by simp
  with count_backtrack_frame[of ?s depth limit] assms(1) obtain k where
    "count_backtrack depth limit ?s = Inr (k, ?s)" by auto
  then show ?thesis by (simp add: count_solutions_def b)
qed


subsection \<open>The digger\<close>

lemma grid_ext:
  assumes "nine_by_nine g" "nine_by_nine h" "\<And>r c. r < 9 \<Longrightarrow> c < 9 \<Longrightarrow> g ! r ! c = h ! r ! c"
  shows "g = h"
proof (rule nth_equalityI)
  show "length g = length h" using assms(1,2) by (simp add: nine_by_nine_def)
  fix r assume "r < length g"
  then have r: "r < 9" using assms(1) by (simp add: nine_by_nine_def)
  show "g ! r = h ! r"
  proof (rule nth_equalityI)
    show "length (g ! r) = length (h ! r)"
      using nine_by_nine_row[OF assms(1) r] nine_by_nine_row[OF assms(2) r] by simp
    fix c assume "c < length (g ! r)"
    then have "c < 9" using nine_by_nine_row[OF assms(1) r] by simp
    then show "g ! r ! c = h ! r ! c" using assms(3) r by simp
  qed
qed

lemma cell_at_ok: "nine_by_nine p \<Longrightarrow> r < 9 \<Longrightarrow> c < 9 \<Longrightarrow> cell_at p r c = Inr (p ! r ! c)"
  using nine_by_nine_row[of p r] by (simp add: cell_at_def nine_by_nine_def)

lemma all_empty_ok:
  "nine_by_nine p \<Longrightarrow> set ts \<subseteq> set cells81 \<Longrightarrow>
     all_empty p ts = Inr (\<forall>(r, c) \<in> set ts. p ! r ! c = 0)"
  by (induction ts) (auto simp: cell_at_ok in_cells81)

lemma backup_cells_ok:
  "nine_by_nine p \<Longrightarrow> set ts \<subseteq> set cells81 \<Longrightarrow>
     backup_cells p ts = Inr (map (\<lambda>(r, c). (r, c, p ! r ! c)) ts)"
  by (induction ts) (auto simp: cell_at_ok in_cells81)

lemma clear_cells_shape:
  "nine_by_nine q \<Longrightarrow> nine_by_nine (clear_cells q bs)"
  by (induction q bs rule: clear_cells.induct) (simp_all add: nine_by_nine_set_cell)

lemma restore_cells_shape:
  "nine_by_nine q \<Longrightarrow> nine_by_nine (restore_cells q bs)"
  by (induction q bs rule: restore_cells.induct) (simp_all add: nine_by_nine_set_cell)

lemma clear_cells_nth:
  "nine_by_nine q \<Longrightarrow> set ts \<subseteq> set cells81 \<Longrightarrow> r' < 9 \<Longrightarrow> c' < 9 \<Longrightarrow>
     clear_cells q (map (\<lambda>(r, c). (r, c, f r c)) ts) ! r' ! c' =
       (if (r', c') \<in> set ts then 0 else q ! r' ! c')"
proof (induction ts arbitrary: q)
  case Nil
  then show ?case by simp
next
  case (Cons x ts)
  obtain r c where x: "x = (r, c)" by (cases x)
  have rc: "r < 9" "c < 9" using Cons.prems(2) by (auto simp: x in_cells81)
  have "nine_by_nine (set_cell q r c 0)" using Cons.prems(1) by (rule nine_by_nine_set_cell)
  from Cons.IH[OF this] Cons.prems show ?case
    by (auto simp: x nth_set_cell[OF Cons.prems(1) rc])
qed

lemma restore_cells_nth:
  "nine_by_nine q \<Longrightarrow> set ts \<subseteq> set cells81 \<Longrightarrow> r' < 9 \<Longrightarrow> c' < 9 \<Longrightarrow>
     restore_cells q (map (\<lambda>(r, c). (r, c, p ! r ! c)) ts) ! r' ! c' =
       (if (r', c') \<in> set ts then p ! r' ! c' else q ! r' ! c')"
proof (induction ts arbitrary: q)
  case Nil
  then show ?case by simp
next
  case (Cons x ts)
  obtain r c where x: "x = (r, c)" by (cases x)
  have rc: "r < 9" "c < 9" using Cons.prems(2) by (auto simp: x in_cells81)
  have "nine_by_nine (set_cell q r c (p ! r ! c))"
    using Cons.prems(1) by (rule nine_by_nine_set_cell)
  from Cons.IH[OF this] Cons.prems show ?case
    by (auto simp: x nth_set_cell[OF Cons.prems(1) rc])
qed

lemma restore_clear:
  assumes "nine_by_nine p" "set ts \<subseteq> set cells81"
  shows "restore_cells (clear_cells p (map (\<lambda>(r, c). (r, c, p ! r ! c)) ts))
           (map (\<lambda>(r, c). (r, c, p ! r ! c)) ts) = p"
proof (rule grid_ext)
  let ?bs = "map (\<lambda>(r, c). (r, c, p ! r ! c)) ts"
  have sh: "nine_by_nine (clear_cells p ?bs)" using assms(1) by (rule clear_cells_shape)
  then show "nine_by_nine (restore_cells (clear_cells p ?bs) ?bs)" by (rule restore_cells_shape)
  show "nine_by_nine p" by (rule assms(1))
  fix r c :: nat assume rc: "r < 9" "c < 9"
  show "restore_cells (clear_cells p ?bs) ?bs ! r ! c = p ! r ! c"
    using restore_cells_nth[OF sh assms(2) rc, of p] clear_cells_nth[OF assms rc, of "\<lambda>r c. p ! r ! c"]
    by simp
qed

lemma paired_cells: "r < 9 \<Longrightarrow> c < 9 \<Longrightarrow> set (paired symmetry r c) \<subseteq> set cells81"
  by (auto simp: paired_def Let_def in_cells81)

lemma paired_True_sym:
  "r < 9 \<Longrightarrow> c < 9 \<Longrightarrow> r' < 9 \<Longrightarrow> c' < 9 \<Longrightarrow>
     (r', c') \<in> set (paired True r c) \<Longrightarrow> (8 - r', 8 - c') \<in> set (paired True r c)"
  by (auto simp: paired_def Let_def split: if_splits)

lemma cells_in_rangeI:
  "(\<And>r c. r < 9 \<Longrightarrow> c < 9 \<Longrightarrow> 0 \<le> g ! r ! c \<and> g ! r ! c \<le> 9 + int room) \<Longrightarrow>
     cells_in_range room g"
  by (auto simp: cells_in_range_def in_cells81)

lemma dig_step_ok:
  assumes p: "nine_by_nine p" "cells_in_range room p" and rc: "r < 9" "c < 9" and depth: "81 < depth"
  shows "\<exists>p'. dig_step room depth symmetry p (r, c) = Inr p' \<and> nine_by_nine p' \<and> cells_in_range room p' \<and>
     (p' = p \<or>
      (count_solutions room depth p' 2 = Inr (1, p') \<and>
       (\<forall>r' < 9. \<forall>c' < 9. p' ! r' ! c' =
           (if (r', c') \<in> set (paired symmetry r c) then 0 else p ! r' ! c'))))"
proof -
  let ?ts = "paired symmetry r c"
  let ?bs = "map (\<lambda>(r, c). (r, c, p ! r ! c)) ?ts"
  let ?q = "clear_cells p ?bs"
  have ts: "set ?ts \<subseteq> set cells81" by (rule paired_cells[OF rc])
  note ae = all_empty_ok[OF p(1) ts] and bk = backup_cells_ok[OF p(1) ts]
  have qs: "nine_by_nine ?q" using p(1) by (rule clear_cells_shape)
  have qn: "\<And>r' c'. r' < 9 \<Longrightarrow> c' < 9 \<Longrightarrow>
      ?q ! r' ! c' = (if (r', c') \<in> set ?ts then 0 else p ! r' ! c')"
    using clear_cells_nth[OF p(1) ts, of _ _ "\<lambda>r c. p ! r ! c"] by simp
  have qnn: "cells_in_range room ?q"
    by (rule cells_in_rangeI) (use qn cells_in_rangeD[OF p(2)] in auto)
  obtain k where k: "count_solutions room depth ?q 2 = Inr (k, ?q)"
    using count_solutions_total[OF qs qnn depth] by blast
  show ?thesis
  proof (cases "\<forall>(r, c) \<in> set ?ts. p ! r ! c = 0")
    case True
    then show ?thesis using p by (simp add: dig_step_def ae)
  next
    case False
    then have ae': "all_empty p ?ts = Inr False" by (simp add: ae)
    show ?thesis
    proof (cases "k = 1")
      case True
      have "dig_step room depth symmetry p (r, c) = Inr ?q"
        using True by (simp add: dig_step_def ae' bk Let_def k)
      then show ?thesis using True qs qnn qn k by simp
    next
      case k1: False
      have "restore_cells ?q ?bs = p" by (rule restore_clear[OF p(1) ts])
      then have "dig_step room depth symmetry p (r, c) = Inr p"
        using k1 by (simp add: dig_step_def ae' bk Let_def k)
      then show ?thesis using p by simp
    qed
  qed
qed

lemma dig_loop_ok:
  assumes depth: "81 < depth"
  shows "nine_by_nine p \<Longrightarrow> cells_in_range room p \<Longrightarrow> set cs \<subseteq> set cells81 \<Longrightarrow>
     count_solutions room depth p 2 = Inr (1, p) \<Longrightarrow>
     (symmetry \<longrightarrow> (\<forall>r < 9. \<forall>c < 9. p ! r ! c = 0 \<longrightarrow> p ! (8 - r) ! (8 - c) = 0)) \<Longrightarrow>
     (\<forall>r < 9. \<forall>c < 9. p ! r ! c \<noteq> 0 \<longrightarrow> p ! r ! c = full ! r ! c) \<Longrightarrow>
     \<exists>p'. dig_loop room depth symmetry p cs = Inr p' \<and> nine_by_nine p' \<and> cells_in_range room p' \<and>
       count_solutions room depth p' 2 = Inr (1, p') \<and>
       (symmetry \<longrightarrow> (\<forall>r < 9. \<forall>c < 9. p' ! r ! c = 0 \<longrightarrow> p' ! (8 - r) ! (8 - c) = 0)) \<and>
       (\<forall>r < 9. \<forall>c < 9. p' ! r ! c \<noteq> 0 \<longrightarrow> p' ! r ! c = full ! r ! c)"
proof (induction cs arbitrary: p)
  case Nil
  then show ?case by simp
next
  case (Cons x cs)
  obtain r c where x: "x = (r, c)" by (cases x)
  have rc: "r < 9" "c < 9" using Cons.prems(3) by (auto simp: x in_cells81)
  from dig_step_ok[OF Cons.prems(1,2) rc depth, of symmetry] obtain p1 where
    st: "dig_step room depth symmetry p (r, c) = Inr p1" and sh: "nine_by_nine p1" "cells_in_range room p1"
    and alt: "p1 = p \<or> (count_solutions room depth p1 2 = Inr (1, p1) \<and>
       (\<forall>r' < 9. \<forall>c' < 9. p1 ! r' ! c' =
           (if (r', c') \<in> set (paired symmetry r c) then 0 else p ! r' ! c')))"
    by blast
  have cnt: "count_solutions room depth p1 2 = Inr (1, p1)" using alt Cons.prems(4) by auto
  have sym: "symmetry \<longrightarrow> (\<forall>r < 9. \<forall>c < 9. p1 ! r ! c = 0 \<longrightarrow> p1 ! (8 - r) ! (8 - c) = 0)"
  proof (intro impI allI)
    fix r' c' assume s: symmetry and b: "r' < 9" "c' < 9" and z: "p1 ! r' ! c' = 0"
    have b': "8 - r' < 9" "8 - c' < 9" by simp_all
    from alt show "p1 ! (8 - r') ! (8 - c') = 0"
    proof
      assume "p1 = p" then show ?thesis using Cons.prems(5) s b z by simp
    next
      assume a: "count_solutions room depth p1 2 = Inr (1, p1) \<and>
       (\<forall>r' < 9. \<forall>c' < 9. p1 ! r' ! c' =
           (if (r', c') \<in> set (paired symmetry r c) then 0 else p ! r' ! c'))"
      show ?thesis
      proof (cases "(r', c') \<in> set (paired symmetry r c)")
        case True
        then have "(8 - r', 8 - c') \<in> set (paired symmetry r c)"
          using paired_True_sym[OF rc b] s by simp
        then show ?thesis using a b' by simp
      next
        case False
        then have "p ! r' ! c' = 0" using a b z by simp
        then have "p ! (8 - r') ! (8 - c') = 0" using Cons.prems(5) s b by simp
        then show ?thesis using a b' by simp
      qed
    qed
  qed
  have agr: "\<forall>r < 9. \<forall>c < 9. p1 ! r ! c \<noteq> 0 \<longrightarrow> p1 ! r ! c = full ! r ! c"
  proof (intro allI impI)
    fix r' c' assume b: "r' < 9" "c' < 9" and nz: "p1 ! r' ! c' \<noteq> 0"
    from alt show "p1 ! r' ! c' = full ! r' ! c'"
    proof
      assume "p1 = p" then show ?thesis using Cons.prems(6) b nz by simp
    next
      assume a: "count_solutions room depth p1 2 = Inr (1, p1) \<and>
       (\<forall>r' < 9. \<forall>c' < 9. p1 ! r' ! c' =
           (if (r', c') \<in> set (paired symmetry r c) then 0 else p ! r' ! c'))"
      then have "p1 ! r' ! c' = (if (r', c') \<in> set (paired symmetry r c) then 0 else p ! r' ! c')"
        using b by blast
      then have "p1 ! r' ! c' = p ! r' ! c'" using nz by (simp split: if_splits)
      then show ?thesis using Cons.prems(6) b nz by simp
    qed
  qed
  from Cons.IH[OF sh _ cnt sym agr] Cons.prems(3) show ?case by (simp add: x st)
qed

subsection \<open>Well-formed grids and the entry points\<close>

lemma well_formed_shape: "well_formed g \<Longrightarrow> nine_by_nine g"
  by (simp add: well_formed_def)

lemma well_formed_in_range:
  assumes "well_formed g"
  shows "cells_in_range room g"
proof (rule cells_in_rangeI)
  fix r c :: nat assume rc: "r < 9" "c < 9"
  have sh: "nine_by_nine g" using assms by (rule well_formed_shape)
  have "g ! r \<in> set g" using sh rc(1) by (simp add: nine_by_nine_def)
  moreover have "g ! r ! c \<in> set (g ! r)" using nine_by_nine_row[OF sh rc(1)] rc(2) by simp
  ultimately have "0 \<le> g ! r ! c \<and> g ! r ! c \<le> 9" using assms unfolding well_formed_def by blast
  then show "0 \<le> g ! r ! c \<and> g ! r ! c \<le> 9 + int room" by simp
qed

lemma rng_ok_example_ops: "rng_ok example_ops"
  by (simp add: rng_ok_def example_ops_def)

lemma attempts_loop_entropy:
  "attempts_loop ops room depth e1 symmetry k rng bp bs bz =
   attempts_loop ops room depth e2 symmetry k rng bp bs bz"
proof (induction k arbitrary: rng bp bs bz)
  case 0
  show ?case by simp
next
  case (Suc k)
  have g: "\<And>sd. generate_full_grid ops room depth e1 (Some sd) = generate_full_grid ops room depth e2 (Some sd)"
    by (simp add: generate_full_grid_def Random_def)
  show ?case
    by (simp add: g Suc.IH Let_def split: prod.splits sum.splits)
qed

subsection \<open>Units, clashes and complete grids\<close>

lemma count_list_distinct: "distinct xs \<Longrightarrow> count_list xs x = (if x \<in> set xs then 1 else 0)"
  by (induction xs) auto

lemma card_1_9: "card {1..9::int} = 9"
  by simp

lemma once_imp_perm:
  assumes len: "length vs = 9" and cnt: "\<forall>d \<in> set [1..9]. count_list vs d = 1"
  shows "distinct vs \<and> set vs = {1..9::int}"
proof -
  have sub: "{1..9} \<subseteq> set vs"
  proof
    fix d :: int assume "d \<in> {1..9}"
    then have "count_list vs d = 1" using cnt by simp
    then show "d \<in> set vs" using count_list_0_iff[of vs d] by auto
  qed
  then have "card {1..9::int} \<le> card (set vs)" by (intro card_mono) auto
  then have c: "card (set vs) = 9" using card_length[of vs] len by simp
  then have "distinct vs" using len by (intro card_distinct) simp
  moreover have "{1..9} = set vs" using sub c by (intro card_subset_eq) auto
  ultimately show ?thesis by simp
qed

lemma perm_imp_once:
  assumes "length vs = 9" "distinct vs" "set vs \<subseteq> {1..9::int}"
  shows "\<forall>d \<in> set [1..9]. count_list vs d = 1"
proof -
  have "card (set vs) = 9" using assms(1,2) by (simp add: distinct_card)
  then have "set vs = {1..9}" using assms(3) by (intro card_subset_eq) auto
  then show ?thesis using assms(2) by (simp add: count_list_distinct)
qed

lemma set_row_cells: "set (row_cells r) = {(r, c) | c. c < 9}"
  by (auto simp: row_cells_def)

lemma set_col_cells: "set (col_cells c) = {(r, c) | r. r < 9}"
  by (auto simp: col_cells_def)

lemma set_box_cells: "set (box_cells b) = {(r, c). r < 9 \<and> c < 9 \<and> box_index r c = b}"
  by (auto simp: box_cells_def set_cells81)

lemma length_box_cells: "b < 9 \<Longrightarrow> length (box_cells b) = 9"
proof -
  have "\<forall>b \<in> set [0..<9]. length (box_cells b) = 9" by code_simp
  then show "b < 9 \<Longrightarrow> length (box_cells b) = 9" by simp
qed

lemma unit_props:
  assumes "u \<in> set all_units"
  shows "distinct u" "length u = 9" "set u \<subseteq> set cells81"
    "\<And>x y. x \<in> set u \<Longrightarrow> y \<in> set u \<Longrightarrow> peers x y"
proof -
  from assms consider r where "r < 9" "u = row_cells r" | c where "c < 9" "u = col_cells c"
    | b where "b < 9" "u = box_cells b"
    by (auto simp: all_units_def)
  then have "distinct u \<and> length u = 9 \<and> set u \<subseteq> set cells81 \<and>
      (\<forall>x \<in> set u. \<forall>y \<in> set u. peers x y)"
  proof cases
    case 1
    then show ?thesis
      by (auto simp: row_cells_def distinct_map inj_on_def in_cells81 peers_def)
  next
    case 2
    then show ?thesis
      by (auto simp: col_cells_def distinct_map inj_on_def in_cells81 peers_def)
  next
    case 3
    then show ?thesis
      using length_box_cells[of b]
      by (auto simp: set_box_cells in_cells81 peers_def) (simp add: box_cells_def distinct_cells81)
  qed
  then show "distinct u" "length u = 9" "set u \<subseteq> set cells81"
    "\<And>x y. x \<in> set u \<Longrightarrow> y \<in> set u \<Longrightarrow> peers x y" by auto
qed

lemma peers_unit:
  assumes "fst x < 9" "snd x < 9" "fst y < 9" "snd y < 9" "peers x y"
  shows "\<exists>u \<in> set all_units. x \<in> set u \<and> y \<in> set u"
proof -
  obtain r c r' c' where xy: "x = (r, c)" "y = (r', c')" by (cases x, cases y)
  from assms(5) consider "r = r'" | "c = c'" | "box_index r c = box_index r' c'"
    by (auto simp: peers_def xy)
  then show ?thesis
  proof cases
    case 1
    then have "x \<in> set (row_cells r) \<and> y \<in> set (row_cells r)" "row_cells r \<in> set all_units"
      using assms(1-4) by (auto simp: xy set_row_cells all_units_def)
    then show ?thesis by blast
  next
    case 2
    then have "x \<in> set (col_cells c) \<and> y \<in> set (col_cells c)" "col_cells c \<in> set all_units"
      using assms(1-4) by (auto simp: xy set_col_cells all_units_def)
    then show ?thesis by blast
  next
    case 3
    let ?b = "box_index r c"
    have "?b < 9" using assms(1,2) by (simp add: xy box_index_less)
    then have "x \<in> set (box_cells ?b) \<and> y \<in> set (box_cells ?b)" "box_cells ?b \<in> set all_units"
      using assms(1-4) 3 by (auto simp: xy set_box_cells all_units_def)
    then show ?thesis by blast
  qed
qed

lemma no_clash_iff:
  "no_clash g \<longleftrightarrow> (\<forall>x \<in> set cells81. \<forall>y \<in> set cells81.
      g ! fst x ! snd x \<noteq> 0 \<and> g ! fst x ! snd x = g ! fst y ! snd y \<and> peers x y \<longrightarrow> x = y)"
  unfolding no_clash_def peers_def set_cells81 by (auto simp: prod_eq_iff)

lemma unit_values_alt: "unit_values g u = map (\<lambda>x. g ! fst x ! snd x) u"
  by (simp add: unit_values_def case_prod_beta)

lemma distinct_filter_map_inj:
  assumes "distinct (filter P (map f u))" "x \<in> set u" "y \<in> set u" "P (f x)" "f x = f y"
  shows "x = y"
proof -
  have "distinct (map f (filter (P \<circ> f) u))" using assms(1) by (simp add: filter_map)
  then have "inj_on f (set (filter (P \<circ> f) u))" by (simp add: distinct_map)
  moreover have "x \<in> set (filter (P \<circ> f) u)" "y \<in> set (filter (P \<circ> f) u)"
    using assms(2-5) by simp_all
  ultimately show ?thesis using assms(5) by (auto dest: inj_onD)
qed

lemma units_no_clash:
  assumes "\<forall>u \<in> set all_units. distinct (filter (\<lambda>v. v \<noteq> 0) (unit_values g u))"
  shows "no_clash g"
  unfolding no_clash_iff
proof (intro ballI impI)
  fix x y assume x: "x \<in> set cells81" and y: "y \<in> set cells81"
    and h: "g ! fst x ! snd x \<noteq> 0 \<and> g ! fst x ! snd x = g ! fst y ! snd y \<and> peers x y"
  have "fst x < 9" "snd x < 9" "fst y < 9" "snd y < 9"
    using x y by (auto simp: set_cells81)
  then obtain u where u: "u \<in> set all_units" "x \<in> set u" "y \<in> set u"
    using peers_unit h by blast
  have "distinct (filter (\<lambda>v. v \<noteq> 0) (map (\<lambda>x. g ! fst x ! snd x) u))"
    using assms u(1) by (simp add: unit_values_alt)
  from distinct_filter_map_inj[OF this u(2,3)] h show "x = y" by simp
qed

lemma no_clash_units:
  assumes "no_clash g" "u \<in> set all_units"
  shows "distinct (filter (\<lambda>v. v \<noteq> 0) (unit_values g u))"
proof -
  let ?f = "\<lambda>x. g ! fst x ! snd x"
  note up = unit_props[OF assms(2)]
  have "inj_on ?f (set (filter ((\<lambda>v. v \<noteq> 0) \<circ> ?f) u))"
  proof (rule inj_onI)
    fix x y assume "x \<in> set (filter ((\<lambda>v. v \<noteq> 0) \<circ> ?f) u)" "y \<in> set (filter ((\<lambda>v. v \<noteq> 0) \<circ> ?f) u)"
      "?f x = ?f y"
    then have "x \<in> set cells81" "y \<in> set cells81" "?f x \<noteq> 0 \<and> ?f x = ?f y \<and> peers x y"
      using up(3,4) by auto
    then show "x = y" using assms(1) unfolding no_clash_iff by blast
  qed
  then have "distinct (map ?f (filter ((\<lambda>v. v \<noteq> 0) \<circ> ?f) u))"
    using up(1) by (simp add: distinct_map)
  then show ?thesis by (simp add: unit_values_alt filter_map)
qed

lemma well_formed_iff:
  "well_formed g \<longleftrightarrow> nine_by_nine g \<and> (\<forall>r < 9. \<forall>c < 9. 0 \<le> g ! r ! c \<and> g ! r ! c \<le> 9) \<and> no_clash g"
proof -
  have "nine_by_nine g \<Longrightarrow>
    (\<forall>row \<in> set g. \<forall>v \<in> set row. 0 \<le> v \<and> v \<le> 9) \<longleftrightarrow> (\<forall>r < 9. \<forall>c < 9. 0 \<le> g ! r ! c \<and> g ! r ! c \<le> 9)"
    unfolding nine_by_nine_def by (auto simp: all_set_conv_all_nth)
  then show ?thesis
    unfolding well_formed_def using units_no_clash[of g] no_clash_units[of g] by blast
qed

lemma complete_valid_iff:
  "complete_valid t \<longleftrightarrow>
     nine_by_nine t \<and> (\<forall>r < 9. \<forall>c < 9. 1 \<le> t ! r ! c \<and> t ! r ! c \<le> 9) \<and> no_clash t"
proof
  assume cv: "complete_valid t"
  let ?f = "\<lambda>x. t ! fst x ! snd x"
  have u: "\<And>u. u \<in> set all_units \<Longrightarrow> distinct (map ?f u) \<and> set (map ?f u) = {1..9}"
  proof -
    fix u assume u: "u \<in> set all_units"
    have "length (map ?f u) = 9" using unit_props(2)[OF u] by simp
    moreover have "\<forall>d \<in> set [1..9]. count_list (map ?f u) d = 1"
      using cv u unfolding complete_valid_def unit_values_alt by blast
    ultimately show "distinct (map ?f u) \<and> set (map ?f u) = {1..9}" by (rule once_imp_perm)
  qed
  have rng: "\<forall>r < 9. \<forall>c < 9. 1 \<le> t ! r ! c \<and> t ! r ! c \<le> 9"
  proof (intro allI impI)
    fix r c :: nat assume rc: "r < 9" "c < 9"
    have ru: "row_cells r \<in> set all_units" using rc by (simp add: all_units_def)
    have "(r, c) \<in> set (row_cells r)" using rc by (simp add: set_row_cells)
    then have "?f (r, c) \<in> ?f ` set (row_cells r)" by (rule imageI)
    then have "?f (r, c) \<in> set (map ?f (row_cells r))" by (simp only: set_map)
    then have "?f (r, c) \<in> {1..9}" using u[OF ru] by blast
    then show "1 \<le> t ! r ! c \<and> t ! r ! c \<le> 9" by simp
  qed
  have "\<forall>u \<in> set all_units. distinct (filter (\<lambda>v. v \<noteq> 0) (unit_values t u))"
  proof
    fix v assume "v \<in> set all_units"
    then have "distinct (map ?f v)" using u by blast
    then show "distinct (filter (\<lambda>v. v \<noteq> 0) (unit_values t v))"
      unfolding unit_values_alt by (rule distinct_filter)
  qed
  then have nc: "no_clash t" by (rule units_no_clash)
  have "nine_by_nine t" using cv unfolding complete_valid_def by blast
  with rng nc show "nine_by_nine t \<and> (\<forall>r < 9. \<forall>c < 9. 1 \<le> t ! r ! c \<and> t ! r ! c \<le> 9) \<and> no_clash t"
    by blast
next
  assume h: "nine_by_nine t \<and> (\<forall>r < 9. \<forall>c < 9. 1 \<le> t ! r ! c \<and> t ! r ! c \<le> 9) \<and> no_clash t"
  let ?f = "\<lambda>x. t ! fst x ! snd x"
  have cr: "1 \<le> ?f x \<and> ?f x \<le> 9" if "x \<in> set cells81" for x
  proof -
    have "fst x < 9" "snd x < 9" using that by (auto simp: set_cells81)
    then show ?thesis using h by blast
  qed
  have "\<forall>d \<in> set [1..9]. count_list (unit_values t u) d = 1" if u: "u \<in> set all_units" for u
  proof -
    note up = unit_props[OF u]
    have "\<forall>x \<in> set u. ?f x \<noteq> 0"
    proof
      fix x assume "x \<in> set u"
      then have "1 \<le> ?f x \<and> ?f x \<le> 9" using up(3) cr by blast
      then show "?f x \<noteq> 0" by simp
    qed
    then have nz: "filter (\<lambda>v. v \<noteq> 0) (map ?f u) = map ?f u"
      by (simp add: filter_id_conv)
    have "no_clash t" using h by blast
    then have "distinct (filter (\<lambda>v. v \<noteq> 0) (map ?f u))"
      using no_clash_units[OF _ u] by (simp only: unit_values_alt)
    then have d: "distinct (map ?f u)" by (simp only: nz)
    have s: "set (map ?f u) \<subseteq> {1..9}"
    proof
      fix v assume "v \<in> set (map ?f u)"
      then obtain x where "x \<in> set u" "v = ?f x" by auto
      then show "v \<in> {1..9}" using up(3) cr[of x] by auto
    qed
    have l: "length (map ?f u) = 9" using up(2) by simp
    show ?thesis unfolding unit_values_alt by (rule perm_imp_once[OF l d s])
  qed
  moreover have "nine_by_nine t" using h by blast
  ultimately show "complete_valid t" unfolding complete_valid_def by blast
qed

lemma complete_valid_well_formed:
  assumes "complete_valid t"
  shows "well_formed t"
proof -
  have h: "nine_by_nine t" "\<forall>r < 9. \<forall>c < 9. 1 \<le> t ! r ! c \<and> t ! r ! c \<le> 9" "no_clash t"
    using assms by (simp_all add: complete_valid_iff)
  have "\<forall>r < 9. \<forall>c < 9. 0 \<le> t ! r ! c \<and> t ! r ! c \<le> 9"
  proof (intro allI impI)
    fix r c :: nat assume "r < 9" "c < 9"
    then have "1 \<le> t ! r ! c \<and> t ! r ! c \<le> 9" using h(2) by blast
    then show "0 \<le> t ! r ! c \<and> t ! r ! c \<le> 9" by simp
  qed
  then show ?thesis using h(1,3) by (simp add: well_formed_iff)
qed

subsection \<open>The digger as a whole\<close>

lemma count_solutions_complete:
  assumes "complete_valid full" "0 < depth"
  shows "count_solutions room depth full limit = Inr (1, full)"
proof -
  have wf: "well_formed full" using assms(1) by (rule complete_valid_well_formed)
  obtain row col box where b: "build_masks room full = Inr (row, col, box)"
    using build_masks_ok[OF well_formed_shape[OF wf] well_formed_in_range[OF wf]] by blast
  have nz: "\<And>r c. r < 9 \<Longrightarrow> c < 9 \<Longrightarrow> full ! r ! c \<noteq> 0"
    using assms(1) unfolding complete_valid_iff by fastforce
  obtain n where n: "depth = Suc n" using assms(2) by (cases depth) auto
  show ?thesis
    by (simp add: count_solutions_def b n find_mrv_cell_full[OF nz])
qed

lemma remove_cells_unique_ok:
  assumes cv: "complete_valid full" and ok: "rng_ok ops" and depth: "81 < depth"
  shows "\<exists>puzzle rng'. remove_cells_unique ops room depth full rng symmetry = Inr (puzzle, rng') \<and>
       nine_by_nine puzzle \<and>
       count_solutions room depth puzzle 2 = Inr (1, puzzle) \<and>
       (symmetry \<longrightarrow> (\<forall>r < 9. \<forall>c < 9. puzzle ! r ! c = 0 \<longrightarrow> puzzle ! (8 - r) ! (8 - c) = 0)) \<and>
       (\<forall>r < 9. \<forall>c < 9. puzzle ! r ! c \<noteq> 0 \<longrightarrow> puzzle ! r ! c = full ! r ! c)"
proof -
  have wf: "well_formed full" using cv by (rule complete_valid_well_formed)
  obtain cells rng' where sh: "shuffle ops rng cells81 = (cells, rng')" by (cases "shuffle ops rng cells81")
  have sub: "set cells \<subseteq> set cells81" using set_shuffle[OF ok, of rng cells81] sh by simp
  have nz: "\<And>r c. r < 9 \<Longrightarrow> c < 9 \<Longrightarrow> full ! r ! c \<noteq> 0"
    using cv unfolding complete_valid_iff by fastforce
  have c1: "count_solutions room depth full 2 = Inr (1, full)"
    using count_solutions_complete[OF cv] depth by simp
  have sym: "symmetry \<longrightarrow> (\<forall>r < 9. \<forall>c < 9. full ! r ! c = 0 \<longrightarrow> full ! (8 - r) ! (8 - c) = 0)"
    using nz by blast
  from dig_loop_ok[OF depth well_formed_shape[OF wf] well_formed_in_range[OF wf] sub c1 sym, of full]
  obtain p' where p: "dig_loop room depth symmetry full cells = Inr p'" "nine_by_nine p'"
       "count_solutions room depth p' 2 = Inr (1, p')"
       "symmetry \<longrightarrow> (\<forall>r < 9. \<forall>c < 9. p' ! r ! c = 0 \<longrightarrow> p' ! (8 - r) ! (8 - c) = 0)"
       "\<forall>r < 9. \<forall>c < 9. p' ! r ! c \<noteq> 0 \<longrightarrow> p' ! r ! c = full ! r ! c"
    by blast
  have "remove_cells_unique ops room depth full rng symmetry = Inr (p', rng')"
    by (simp add: remove_cells_unique_def sh p(1))
  then show ?thesis using p(2-5) by blast
qed

lemma paired_center: "paired True 4 4 = [(4, 4)]"
  by (simp add: paired_def)

lemma dig_step_center:
  assumes "nine_by_nine p" "cells_in_range room p" "81 < depth"
  shows "\<exists>p'. dig_step room depth True p (4, 4) = Inr p' \<and>
     (\<forall>r < 9. \<forall>c < 9. (r, c) \<noteq> (4, 4) \<longrightarrow> p' ! r ! c = p ! r ! c)"
proof -
  from dig_step_ok[OF assms(1,2) _ _ assms(3), of 4 4 True] obtain p' where
    st: "dig_step room depth True p (4, 4) = Inr p'"
    and alt: "p' = p \<or> (count_solutions room depth p' 2 = Inr (1, p') \<and>
       (\<forall>r' < 9. \<forall>c' < 9. p' ! r' ! c' =
           (if (r', c') \<in> set (paired True 4 4) then 0 else p ! r' ! c')))"
    by auto
  have "\<forall>r < 9. \<forall>c < 9. (r, c) \<noteq> (4, 4) \<longrightarrow> p' ! r ! c = p ! r ! c"
    using alt by (auto simp: paired_center)
  then show ?thesis using st by blast
qed

lemma dig_loop_sym:
  assumes depth: "81 < depth"
  shows "nine_by_nine p \<Longrightarrow> cells_in_range room p \<Longrightarrow> set cs \<subseteq> set cells81 \<Longrightarrow>
     (\<forall>r < 9. \<forall>c < 9. full ! r ! c \<noteq> 0 \<and> p ! r ! c = 0 \<longrightarrow> p ! (8 - r) ! (8 - c) = 0) \<Longrightarrow>
     \<exists>p'. dig_loop room depth True p cs = Inr p' \<and> nine_by_nine p' \<and>
       (\<forall>r < 9. \<forall>c < 9. full ! r ! c \<noteq> 0 \<and> p' ! r ! c = 0 \<longrightarrow> p' ! (8 - r) ! (8 - c) = 0)"
proof (induction cs arbitrary: p)
  case Nil
  then show ?case by simp
next
  case (Cons x cs)
  obtain r c where x: "x = (r, c)" by (cases x)
  have rc: "r < 9" "c < 9" using Cons.prems(3) by (auto simp: x in_cells81)
  from dig_step_ok[OF Cons.prems(1,2) rc depth, of True] obtain p1 where
    st: "dig_step room depth True p (r, c) = Inr p1" and sh: "nine_by_nine p1" "cells_in_range room p1"
    and alt: "p1 = p \<or> (count_solutions room depth p1 2 = Inr (1, p1) \<and>
       (\<forall>r' < 9. \<forall>c' < 9. p1 ! r' ! c' =
           (if (r', c') \<in> set (paired True r c) then 0 else p ! r' ! c')))"
    by blast
  have sym: "\<forall>r < 9. \<forall>c < 9. full ! r ! c \<noteq> 0 \<and> p1 ! r ! c = 0 \<longrightarrow> p1 ! (8 - r) ! (8 - c) = 0"
  proof (intro impI allI)
    fix r' c' assume b: "r' < 9" "c' < 9" and z: "full ! r' ! c' \<noteq> 0 \<and> p1 ! r' ! c' = 0"
    have b': "8 - r' < 9" "8 - c' < 9" by simp_all
    from alt show "p1 ! (8 - r') ! (8 - c') = 0"
    proof
      assume "p1 = p" then show ?thesis using Cons.prems(4) b z by simp
    next
      assume a: "count_solutions room depth p1 2 = Inr (1, p1) \<and>
       (\<forall>r' < 9. \<forall>c' < 9. p1 ! r' ! c' =
           (if (r', c') \<in> set (paired True r c) then 0 else p ! r' ! c'))"
      show ?thesis
      proof (cases "(r', c') \<in> set (paired True r c)")
        case True
        then have "(8 - r', 8 - c') \<in> set (paired True r c)"
          using paired_True_sym[OF rc b] by simp
        then show ?thesis using a b' by simp
      next
        case False
        then have "p ! r' ! c' = 0" using a b z by simp
        then have "p ! (8 - r') ! (8 - c') = 0" using Cons.prems(4) b z by simp
        then show ?thesis using a b' by simp
      qed
    qed
  qed
  from Cons.IH[OF sh _ sym] Cons.prems(3) show ?case by (simp add: x st)
qed

lemma remove_cells_unique_sym:
  assumes sh: "nine_by_nine full" and rg: "cells_in_range room full"
    and ok: "rng_ok ops" and depth: "81 < depth"
  shows "\<exists>puzzle rng'. remove_cells_unique ops room depth full rng True = Inr (puzzle, rng') \<and>
       (\<forall>r < 9. \<forall>c < 9. full ! r ! c \<noteq> 0 \<and> puzzle ! r ! c = 0 \<longrightarrow>
          puzzle ! (8 - r) ! (8 - c) = 0)"
proof -
  obtain cells rng' where s: "shuffle ops rng cells81 = (cells, rng')" by (cases "shuffle ops rng cells81")
  have sub: "set cells \<subseteq> set cells81" using set_shuffle[OF ok, of rng cells81] s by simp
  have i: "\<forall>r < 9. \<forall>c < 9. full ! r ! c \<noteq> 0 \<and> full ! r ! c = 0 \<longrightarrow> full ! (8 - r) ! (8 - c) = 0"
    by simp
  from dig_loop_sym[OF depth sh rg sub i] obtain p' where
    p: "dig_loop room depth True full cells = Inr p'"
    "\<forall>r < 9. \<forall>c < 9. full ! r ! c \<noteq> 0 \<and> p' ! r ! c = 0 \<longrightarrow> p' ! (8 - r) ! (8 - c) = 0"
    by blast
  have "remove_cells_unique ops room depth full rng True = Inr (p', rng')"
    by (simp add: remove_cells_unique_def s p(1))
  then show ?thesis using p(2) by blast
qed

subsection \<open>The search invariant\<close>

lemma peers_sym: "peers x y \<Longrightarrow> peers y x"
  by (auto simp: peers_def)

lemma no_clashD:
  assumes "no_clash g" "r < 9" "c < 9" "r' < 9" "c' < 9" "g ! r ! c \<noteq> 0"
    "g ! r ! c = g ! r' ! c'" "peers (r, c) (r', c')"
  shows "r = r' \<and> c = c'"
proof -
  have x: "(r, c) \<in> set cells81" "(r', c') \<in> set cells81"
    using assms(2-5) by (simp_all add: in_cells81)
  have "g ! fst (r, c) ! snd (r, c) \<noteq> 0 \<and>
      g ! fst (r, c) ! snd (r, c) = g ! fst (r', c') ! snd (r', c') \<and> peers (r, c) (r', c')"
    using assms(6-8) by simp
  with assms(1)[unfolded no_clash_iff, rule_format, OF x] show ?thesis by simp
qed

lemma masks_invD:
  assumes "masks_inv g row col box" "i < 9"
  shows "bit (row ! i) k \<longleftrightarrow> (\<exists>c < 9. g ! i ! c = int k + 1)"
    and "bit (col ! i) k \<longleftrightarrow> (\<exists>r < 9. g ! r ! i = int k + 1)"
    and "bit (box ! i) k \<longleftrightarrow> (\<exists>r < 9. \<exists>c < 9. box_index r c = i \<and> g ! r ! c = int k + 1)"
  using assms unfolding masks_inv_def masks_upto_def set_cells81 by auto

lemma masks_inv_bits:
  assumes "masks_inv g row col box" "r < 9" "c < 9" "1 \<le> d"
  shows "bit (row ! r) (nat (d - 1)) \<longleftrightarrow> (\<exists>c' < 9. g ! r ! c' = d)"
    and "bit (col ! c) (nat (d - 1)) \<longleftrightarrow> (\<exists>r' < 9. g ! r' ! c = d)"
    and "bit (box ! box_index r c) (nat (d - 1)) \<longleftrightarrow>
          (\<exists>r' < 9. \<exists>c' < 9. box_index r' c' = box_index r c \<and> g ! r' ! c' = d)"
proof -
  have d: "int (nat (d - 1)) + 1 = d" using assms(4) by simp
  have b: "box_index r c < 9" using assms(2,3) by (rule box_index_less)
  show "bit (row ! r) (nat (d - 1)) \<longleftrightarrow> (\<exists>c' < 9. g ! r ! c' = d)"
    using masks_invD(1)[OF assms(1,2), of "nat (d - 1)"] by (simp only: d)
  show "bit (col ! c) (nat (d - 1)) \<longleftrightarrow> (\<exists>r' < 9. g ! r' ! c = d)"
    using masks_invD(2)[OF assms(1,3), of "nat (d - 1)"] by (simp only: d)
  show "bit (box ! box_index r c) (nat (d - 1)) \<longleftrightarrow>
          (\<exists>r' < 9. \<exists>c' < 9. box_index r' c' = box_index r c \<and> g ! r' ! c' = d)"
    using masks_invD(3)[OF assms(1) b, of "nat (d - 1)"] by (simp only: d)
qed


lemma legal_iff:
  assumes "masks_inv g row col box" "r < 9" "c < 9"
  shows "d \<in> set (digits_from_mask (candidates_mask row col box r c)) \<longleftrightarrow> legal g r c d"
proof (cases "1 \<le> d \<and> d \<le> 9")
  case False
  then show ?thesis by (auto simp: in_digits_from_mask legal_def)
next
  case True
  then have d1: "1 \<le> d" and k: "nat (d - 1) < 9" by auto
  note m = masks_inv_bits[OF assms d1]
  have "d \<in> set (digits_from_mask (candidates_mask row col box r c)) \<longleftrightarrow>
      \<not> (\<exists>c' < 9. g ! r ! c' = d) \<and> \<not> (\<exists>r' < 9. g ! r' ! c = d) \<and>
      \<not> (\<exists>r' < 9. \<exists>c' < 9. box_index r' c' = box_index r c \<and> g ! r' ! c' = d)"
    using True k by (simp add: in_digits_from_mask bit_candidates_mask m)
  also have "\<dots> \<longleftrightarrow> legal g r c d"
  proof
    assume h: "\<not> (\<exists>c' < 9. g ! r ! c' = d) \<and> \<not> (\<exists>r' < 9. g ! r' ! c = d) \<and>
      \<not> (\<exists>r' < 9. \<exists>c' < 9. box_index r' c' = box_index r c \<and> g ! r' ! c' = d)"
    have "g ! r' ! c' \<noteq> d" if "r' < 9" "c' < 9" "peers (r, c) (r', c')" for r' c'
    proof -
      from that(3) consider "r = r'" | "c = c'" | "box_index r' c' = box_index r c"
        by (auto simp: peers_def)
      then show ?thesis using h that(1,2) by cases blast+
    qed
    then show "legal g r c d" using True by (simp add: legal_def)
  next
    assume l: "legal g r c d"
    then have p: "\<And>r' c'. r' < 9 \<Longrightarrow> c' < 9 \<Longrightarrow> peers (r, c) (r', c') \<Longrightarrow> g ! r' ! c' \<noteq> d"
      by (simp add: legal_def)
    have "\<not> (\<exists>c' < 9. g ! r ! c' = d)" using p[of r] assms(2) by (auto simp: peers_def)
    moreover have "\<not> (\<exists>r' < 9. g ! r' ! c = d)" using p[of _ c] assms(3) by (auto simp: peers_def)
    moreover have "\<not> (\<exists>r' < 9. \<exists>c' < 9. box_index r' c' = box_index r c \<and> g ! r' ! c' = d)"
      using p by (auto simp: peers_def)
    ultimately show "\<not> (\<exists>c' < 9. g ! r ! c' = d) \<and> \<not> (\<exists>r' < 9. g ! r' ! c = d) \<and>
      \<not> (\<exists>r' < 9. \<exists>c' < 9. box_index r' c' = box_index r c \<and> g ! r' ! c' = d)" by blast
  qed
  finally show ?thesis .
qed

lemma masks_invI:
  assumes "length row = 9" "length col = 9" "length box = 9"
    and "\<And>i k. i < 9 \<Longrightarrow> bit (row ! i) k \<longleftrightarrow> (\<exists>c < 9. g ! i ! c = int k + 1)"
    and "\<And>i k. i < 9 \<Longrightarrow> bit (col ! i) k \<longleftrightarrow> (\<exists>r < 9. g ! r ! i = int k + 1)"
    and "\<And>i k. i < 9 \<Longrightarrow> bit (box ! i) k \<longleftrightarrow>
          (\<exists>r < 9. \<exists>c < 9. box_index r c = i \<and> g ! r ! c = int k + 1)"
  shows "masks_inv g row col box"
  using assms unfolding masks_inv_def masks_upto_def set_cells81 by auto

lemma masks_inv_length:
  "masks_inv g row col box \<Longrightarrow> length row = 9 \<and> length col = 9 \<and> length box = 9"
  by (simp add: masks_inv_def masks_upto_def)

lemma masks_inv_place:
  assumes m: "masks_inv g row col box" and sh: "nine_by_nine g"
    and rc: "r < 9" "c < 9" and e: "g ! r ! c = 0" and d: "1 \<le> d"
  shows "masks_inv (set_cell g r c d) (row[r := row ! r OR bit_of d])
            (col[c := col ! c OR bit_of d])
            (box[box_index r c := box ! box_index r c OR bit_of d])"
proof (rule masks_invI)
  note len = masks_inv_length[OF m]
  note n = nth_set_cell[OF sh rc]
  have b: "box_index r c < 9" by (rule box_index_less[OF rc])
  show "length (row[r := row ! r OR bit_of d]) = 9" "length (col[c := col ! c OR bit_of d]) = 9"
    "length (box[box_index r c := box ! box_index r c OR bit_of d]) = 9"
    using len by simp_all
  fix i k :: nat assume i: "i < 9"
  have nz: "g ! r ! c \<noteq> int k + 1" using e by simp
  show "bit (row[r := row ! r OR bit_of d] ! i) k \<longleftrightarrow> (\<exists>c' < 9. set_cell g r c d ! i ! c' = int k + 1)"
  proof (cases "i = r")
    case True
    have "(\<exists>c' < 9. set_cell g r c d ! r ! c' = int k + 1) \<longleftrightarrow>
        (\<exists>c' < 9. g ! r ! c' = int k + 1) \<or> d = int k + 1"
      using rc nz by (auto simp: n)
    then show ?thesis
      using True rc len masks_invD(1)[OF m i, of k]
      by (simp add: bit_or_iff bit_bit_of_pos[OF d])
  next
    case False
    then show ?thesis using masks_invD(1)[OF m i, of k] by (simp add: n)
  qed
  show "bit (col[c := col ! c OR bit_of d] ! i) k \<longleftrightarrow> (\<exists>r' < 9. set_cell g r c d ! r' ! i = int k + 1)"
  proof (cases "i = c")
    case True
    have "(\<exists>r' < 9. set_cell g r c d ! r' ! c = int k + 1) \<longleftrightarrow>
        (\<exists>r' < 9. g ! r' ! c = int k + 1) \<or> d = int k + 1"
      using rc nz by (auto simp: n)
    then show ?thesis
      using True rc len masks_invD(2)[OF m i, of k]
      by (simp add: bit_or_iff bit_bit_of_pos[OF d])
  next
    case False
    then show ?thesis using masks_invD(2)[OF m i, of k] by (simp add: n)
  qed
  show "bit (box[box_index r c := box ! box_index r c OR bit_of d] ! i) k \<longleftrightarrow>
      (\<exists>r' < 9. \<exists>c' < 9. box_index r' c' = i \<and> set_cell g r c d ! r' ! c' = int k + 1)"
  proof (cases "i = box_index r c")
    case True
    have "(\<exists>r' < 9. \<exists>c' < 9. box_index r' c' = box_index r c \<and> set_cell g r c d ! r' ! c' = int k + 1) \<longleftrightarrow>
        (\<exists>r' < 9. \<exists>c' < 9. box_index r' c' = box_index r c \<and> g ! r' ! c' = int k + 1) \<or> d = int k + 1"
      using rc nz by (auto simp: n)
    then show ?thesis
      using True b len masks_invD(3)[OF m i, of k]
      by (simp add: bit_or_iff bit_bit_of_pos[OF d])
  next
    case False
    have "(\<exists>r' < 9. \<exists>c' < 9. box_index r' c' = i \<and> set_cell g r c d ! r' ! c' = int k + 1) \<longleftrightarrow>
        (\<exists>r' < 9. \<exists>c' < 9. box_index r' c' = i \<and> g ! r' ! c' = int k + 1)"
      using False by (auto simp: n)
    then show ?thesis using False masks_invD(3)[OF m i, of k] by simp
  qed
qed

lemma well_formed_place:
  assumes wf: "well_formed g" and rc: "r < 9" "c < 9" and e: "g ! r ! c = 0"
    and l: "legal g r c d"
  shows "well_formed (set_cell g r c d)"
proof -
  have sh: "nine_by_nine g" and rg: "\<forall>r < 9. \<forall>c < 9. 0 \<le> g ! r ! c \<and> g ! r ! c \<le> 9"
    and nc: "no_clash g" using wf by (simp_all add: well_formed_iff)
  note n = nth_set_cell[OF sh rc]
  have d: "1 \<le> d" "d \<le> 9" using l by (simp_all add: legal_def)
  have lp: "\<And>r' c'. r' < 9 \<Longrightarrow> c' < 9 \<Longrightarrow> peers (r, c) (r', c') \<Longrightarrow> g ! r' ! c' \<noteq> d"
    using l by (simp add: legal_def)
  have "no_clash (set_cell g r c d)"
    unfolding no_clash_iff
  proof (intro ballI impI)
    fix x y assume x: "x \<in> set cells81" and y: "y \<in> set cells81"
      and h: "set_cell g r c d ! fst x ! snd x \<noteq> 0 \<and>
          set_cell g r c d ! fst x ! snd x = set_cell g r c d ! fst y ! snd y \<and> peers x y"
    obtain a b a' b' where xy: "x = (a, b)" "y = (a', b')" by (cases x, cases y)
    have bd: "a < 9" "b < 9" "a' < 9" "b' < 9" using x y by (simp_all add: xy in_cells81)
    show "x = y"
    proof (cases "(a, b) = (r, c)")
      case True
      show ?thesis
      proof (cases "(a', b') = (r, c)")
        case True
        with \<open>(a, b) = (r, c)\<close> show ?thesis by (simp add: xy)
      next
        case False
        then have "g ! a' ! b' = d" using h True by (auto simp: xy n)
        moreover have "peers (r, c) (a', b')" using h True by (simp add: xy)
        ultimately show ?thesis using lp[OF bd(3,4)] by simp
      qed
    next
      case False
      then have gx: "g ! a ! b \<noteq> 0" "set_cell g r c d ! a ! b = g ! a ! b"
        using h by (auto simp: xy n)
      show ?thesis
      proof (cases "(a', b') = (r, c)")
        case True
        then have "g ! a ! b = d" using h gx by (auto simp: xy n)
        moreover have "peers (r, c) (a, b)" using h True by (auto simp: xy intro: peers_sym)
        ultimately show ?thesis using lp[OF bd(1,2)] by simp
      next
        case False
        then have "g ! a ! b = g ! a' ! b'" using h gx by (auto simp: xy n)
        moreover have "peers (a, b) (a', b')" using h by (simp add: xy)
        ultimately show ?thesis using no_clashD[OF nc bd gx(1)] by (simp add: xy)
      qed
    qed
  qed
  moreover have "\<forall>r' < 9. \<forall>c' < 9. 0 \<le> set_cell g r c d ! r' ! c' \<and> set_cell g r c d ! r' ! c' \<le> 9"
    using rg d by (simp add: n)
  moreover have "nine_by_nine (set_cell g r c d)" using sh by (rule nine_by_nine_set_cell)
  ultimately show ?thesis by (simp add: well_formed_iff)
qed

lemma search_inv_place:
  assumes "search_inv s" "r < 9" "c < 9" "sgrid s ! r ! c = 0"
    and "d \<in> set (digits_from_mask (candidates_mask (srow s) (scol s) (sbox s) r c))"
  shows "search_inv (place s r c d)"
proof -
  have wf: "well_formed (sgrid s)" and m: "masks_inv (sgrid s) (srow s) (scol s) (sbox s)"
    using assms(1) by (simp_all add: search_inv_def)
  have l: "legal (sgrid s) r c d" using legal_iff[OF m assms(2,3)] assms(5) by simp
  then have d: "1 \<le> d" by (simp add: legal_def)
  show ?thesis
    using well_formed_place[OF wf assms(2,3,4) l]
      masks_inv_place[OF m well_formed_shape[OF wf] assms(2,3,4) d]
    by (simp add: search_inv_def place_def Let_def)
qed

subsection \<open>Solution sets\<close>

lemma in_solutions:
  "t \<in> solutions g \<longleftrightarrow>
     nine_by_nine t \<and> (\<forall>r < 9. \<forall>c < 9. 1 \<le> t ! r ! c \<and> t ! r ! c \<le> 9) \<and> no_clash t \<and>
     (\<forall>r < 9. \<forall>c < 9. g ! r ! c \<noteq> 0 \<longrightarrow> t ! r ! c = g ! r ! c)"
proof -
  have "agrees g t \<longleftrightarrow> (\<forall>r < 9. \<forall>c < 9. g ! r ! c \<noteq> 0 \<longrightarrow> t ! r ! c = g ! r ! c)"
    unfolding agrees_def by (auto simp: in_cells81)
  then show ?thesis by (simp add: solutions_def complete_valid_iff)
qed

lemma finite_solutions: "finite (solutions g)"
proof -
  let ?R = "{row. set row \<subseteq> {1..9::int} \<and> length row = 9}"
  have fr: "finite ?R" by (rule finite_lists_length_eq) simp
  have "solutions g \<subseteq> {t. set t \<subseteq> ?R \<and> length t = 9}"
  proof
    fix t assume "t \<in> solutions g"
    then have sh: "nine_by_nine t" and rg: "\<forall>r < 9. \<forall>c < 9. 1 \<le> t ! r ! c \<and> t ! r ! c \<le> 9"
      by (simp_all add: in_solutions)
    have "row \<in> ?R" if "row \<in> set t" for row
    proof -
      from that obtain r where r: "r < length t" "row = t ! r" unfolding in_set_conv_nth by blast
      then have r9: "r < 9" using sh by (simp add: nine_by_nine_def)
      have l: "length row = 9" using sh that by (simp add: nine_by_nine_def)
      have "v \<in> {1..9}" if "v \<in> set row" for v
      proof -
        from that obtain c where c: "c < length row" "v = row ! c" unfolding in_set_conv_nth by blast
        then have "c < 9" using l by simp
        then have "1 \<le> t ! r ! c \<and> t ! r ! c \<le> 9" using rg r9 by blast
        then show ?thesis using c(2) r(2) by simp
      qed
      then show ?thesis using l by auto
    qed
    then show "t \<in> {t. set t \<subseteq> ?R \<and> length t = 9}" using sh by (auto simp: nine_by_nine_def)
  qed
  moreover have "finite {t. set t \<subseteq> ?R \<and> length t = 9}" using fr by (rule finite_lists_length_eq)
  ultimately show ?thesis by (rule finite_subset)
qed

lemma solutions_full:
  assumes wf: "well_formed g" and full: "\<And>r c. r < 9 \<Longrightarrow> c < 9 \<Longrightarrow> g ! r ! c \<noteq> 0"
  shows "solutions g = {g}"
proof -
  have sh: "nine_by_nine g" and rg: "\<forall>r < 9. \<forall>c < 9. 0 \<le> g ! r ! c \<and> g ! r ! c \<le> 9"
    and nc: "no_clash g" using wf by (simp_all add: well_formed_iff)
  have "1 \<le> g ! r ! c \<and> g ! r ! c \<le> 9" if "r < 9" "c < 9" for r c
  proof -
    have "0 \<le> g ! r ! c \<and> g ! r ! c \<le> 9" using rg that by blast
    then show ?thesis using full[OF that] by linarith
  qed
  then have "g \<in> solutions g" using sh nc by (simp add: in_solutions)
  moreover have "t = g" if "t \<in> solutions g" for t
  proof (rule grid_ext)
    show "nine_by_nine t" using that by (simp add: in_solutions)
    show "nine_by_nine g" by (rule sh)
    fix r c :: nat assume "r < 9" "c < 9"
    then show "t ! r ! c = g ! r ! c" using that full by (simp add: in_solutions)
  qed
  ultimately show ?thesis by auto
qed

lemma solutions_set_cell_sub:
  assumes sh: "nine_by_nine g" and rc: "r < 9" "c < 9" and e: "g ! r ! c = 0"
  shows "solutions (set_cell g r c d) \<subseteq> solutions g"
proof
  fix t assume t: "t \<in> solutions (set_cell g r c d)"
  have "t ! r' ! c' = g ! r' ! c'" if b: "r' < 9" "c' < 9" and nz: "g ! r' ! c' \<noteq> 0" for r' c'
  proof -
    have ne: "\<not> (r' = r \<and> c' = c)" using nz e by auto
    have "set_cell g r c d ! r' ! c' = g ! r' ! c'"
      using ne by (auto simp: nth_set_cell[OF sh rc])
    moreover have "set_cell g r c d ! r' ! c' \<noteq> 0 \<longrightarrow> t ! r' ! c' = set_cell g r c d ! r' ! c'"
      using t b unfolding in_solutions by blast
    ultimately show ?thesis using nz by simp
  qed
  then show "t \<in> solutions g" using t unfolding in_solutions by blast
qed

lemma solutions_set_cell_value:
  assumes sh: "nine_by_nine g" and rc: "r < 9" "c < 9" and d: "d \<noteq> 0"
    and t: "t \<in> solutions (set_cell g r c d)"
  shows "t ! r ! c = d"
proof -
  have "set_cell g r c d ! r ! c = d" by (simp add: nth_set_cell[OF sh rc])
  moreover have "set_cell g r c d ! r ! c \<noteq> 0 \<longrightarrow> t ! r ! c = set_cell g r c d ! r ! c"
    using t rc unfolding in_solutions by blast
  ultimately show ?thesis using d by simp
qed

lemma in_solutionsI:
  assumes "nine_by_nine t"
    and "\<And>r c. r < 9 \<Longrightarrow> c < 9 \<Longrightarrow> 1 \<le> t ! r ! c \<and> t ! r ! c \<le> 9"
    and "no_clash t"
    and "\<And>r c. r < 9 \<Longrightarrow> c < 9 \<Longrightarrow> g ! r ! c \<noteq> 0 \<Longrightarrow> t ! r ! c = g ! r ! c"
  shows "t \<in> solutions g"
  unfolding in_solutions using assms by (intro conjI allI impI) simp_all

lemma in_solutionsD:
  assumes "t \<in> solutions g"
  shows "nine_by_nine t" and "no_clash t"
    and "\<And>r c. r < 9 \<Longrightarrow> c < 9 \<Longrightarrow> 1 \<le> t ! r ! c \<and> t ! r ! c \<le> 9"
    and "\<And>r c. r < 9 \<Longrightarrow> c < 9 \<Longrightarrow> g ! r ! c \<noteq> 0 \<Longrightarrow> t ! r ! c = g ! r ! c"
  using assms unfolding in_solutions by simp_all

lemma solutions_split:
  assumes wf: "well_formed g" and rc: "r < 9" "c < 9" and e: "g ! r ! c = 0"
  shows "solutions g = (\<Union>d \<in> {d. legal g r c d}. solutions (set_cell g r c d))"
proof
  have sh: "nine_by_nine g" using wf by (rule well_formed_shape)
  show "(\<Union>d \<in> {d. legal g r c d}. solutions (set_cell g r c d)) \<subseteq> solutions g"
  proof
    fix t assume "t \<in> (\<Union>d \<in> {d. legal g r c d}. solutions (set_cell g r c d))"
    then obtain d where "t \<in> solutions (set_cell g r c d)" by blast
    then show "t \<in> solutions g" using solutions_set_cell_sub[OF sh rc e, of d] by (rule rev_subsetD)
  qed
  show "solutions g \<subseteq> (\<Union>d \<in> {d. legal g r c d}. solutions (set_cell g r c d))"
  proof
    fix t assume t: "t \<in> solutions g"
    note tsh = in_solutionsD(1)[OF t] and tnc = in_solutionsD(2)[OF t]
      and trg = in_solutionsD(3)[OF t] and ag = in_solutionsD(4)[OF t]
    let ?d = "t ! r ! c"
    have d: "1 \<le> ?d" "?d \<le> 9" using trg[OF rc] by simp_all
    have "g ! r' ! c' \<noteq> ?d" if b: "r' < 9" "c' < 9" and p: "peers (r, c) (r', c')" for r' c'
    proof
      assume eq: "g ! r' ! c' = ?d"
      then have nz: "g ! r' ! c' \<noteq> 0" using d by simp
      have "t ! r' ! c' = ?d" using ag[OF b nz] eq by simp
      then have eq2: "t ! r ! c = t ! r' ! c'" by simp
      have nz2: "t ! r ! c \<noteq> 0" using d by simp
      have "r = r' \<and> c = c'" by (rule no_clashD[OF tnc rc b nz2 eq2 p])
      then show False using nz e by simp
    qed
    then have l: "legal g r c ?d" using d by (simp add: legal_def)
    have "t \<in> solutions (set_cell g r c ?d)"
    proof (rule in_solutionsI)
      show "nine_by_nine t" by (rule tsh)
      show "no_clash t" by (rule tnc)
      show "\<And>r c. r < 9 \<Longrightarrow> c < 9 \<Longrightarrow> 1 \<le> t ! r ! c \<and> t ! r ! c \<le> 9" by (rule trg)
      fix r' c' :: nat assume b: "r' < 9" "c' < 9" and nz: "set_cell g r c ?d ! r' ! c' \<noteq> 0"
      show "t ! r' ! c' = set_cell g r c ?d ! r' ! c'"
      proof (cases "r' = r \<and> c' = c")
        case True
        then show ?thesis by (simp add: nth_set_cell[OF sh rc])
      next
        case False
        then have eq: "set_cell g r c ?d ! r' ! c' = g ! r' ! c'"
          by (auto simp: nth_set_cell[OF sh rc])
        then have "g ! r' ! c' \<noteq> 0" using nz by simp
        then have "t ! r' ! c' = g ! r' ! c'" by (rule ag[OF b])
        then show ?thesis using eq by simp
      qed
    qed
    then show "t \<in> (\<Union>d \<in> {d. legal g r c d}. solutions (set_cell g r c d))" using l by blast
  qed
qed

lemma finite_legal: "finite {d. legal g r c d}"
proof (rule finite_subset)
  show "{d. legal g r c d} \<subseteq> {1..9}" by (auto simp: legal_def)
qed simp

lemma card_solutions_split:
  assumes wf: "well_formed g" and rc: "r < 9" "c < 9" and e: "g ! r ! c = 0"
  shows "card (solutions g) = (\<Sum>d \<in> {d. legal g r c d}. card (solutions (set_cell g r c d)))"
proof -
  have sh: "nine_by_nine g" using wf by (rule well_formed_shape)
  have "card (\<Union>d \<in> {d. legal g r c d}. solutions (set_cell g r c d)) =
      (\<Sum>d \<in> {d. legal g r c d}. card (solutions (set_cell g r c d)))"
  proof (rule card_UN_disjoint)
    show "finite {d. legal g r c d}" by (rule finite_legal)
    show "\<forall>d \<in> {d. legal g r c d}. finite (solutions (set_cell g r c d))"
      by (simp add: finite_solutions)
    show "\<forall>d \<in> {d. legal g r c d}. \<forall>d' \<in> {d. legal g r c d}. d \<noteq> d' \<longrightarrow>
        solutions (set_cell g r c d) \<inter> solutions (set_cell g r c d') = {}"
    proof (intro ballI impI)
      fix d d' assume l: "d \<in> {d. legal g r c d}" "d' \<in> {d. legal g r c d}" and ne: "d \<noteq> d'"
      have nz: "d \<noteq> 0" "d' \<noteq> 0" using l by (auto simp: legal_def)
      show "solutions (set_cell g r c d) \<inter> solutions (set_cell g r c d') = {}"
        using solutions_set_cell_value[OF sh rc nz(1)] solutions_set_cell_value[OF sh rc nz(2)] ne
        by blast
    qed
  qed
  then show ?thesis using solutions_split[OF wf rc e] by simp
qed

lemma digits_from_mask_0: "digits_from_mask 0 = []"
  by (simp add: digits_from_mask_def)

subsection \<open>The counting search counts solutions\<close>

lemma nsol_nonneg: "0 \<le> nsol g" by (simp add: nsol_def)

lemma nsol_split:
  assumes "search_inv s" "r < 9" "c < 9" "sgrid s ! r ! c = 0"
  shows "nsol (sgrid s) =
     sum_list (map (\<lambda>d. nsol (set_cell (sgrid s) r c d))
        (digits_from_mask (candidates_mask (srow s) (scol s) (sbox s) r c)))"
proof -
  have wf: "well_formed (sgrid s)" and m: "masks_inv (sgrid s) (srow s) (scol s) (sbox s)"
    using assms(1) by (simp_all add: search_inv_def)
  let ?ds = "digits_from_mask (candidates_mask (srow s) (scol s) (sbox s) r c)"
  have st: "set ?ds = {d. legal (sgrid s) r c d}"
    using legal_iff[OF m assms(2,3)] by blast
  have "sum_list (map (\<lambda>d. nsol (set_cell (sgrid s) r c d)) ?ds) =
      sum (\<lambda>d. nsol (set_cell (sgrid s) r c d)) (set ?ds)"
    by (rule sum_list_distinct_conv_sum_set[OF distinct_digits_from_mask])
  also have "\<dots> = int (\<Sum>d \<in> {d. legal (sgrid s) r c d}. card (solutions (set_cell (sgrid s) r c d)))"
    by (simp add: st nsol_def)
  also have "\<dots> = nsol (sgrid s)"
    by (simp only: nsol_def card_solutions_split[OF wf assms(2,3,4)])
  finally show ?thesis by simp
qed

lemma sum_list_nsol_nonneg: "0 \<le> sum_list (map (\<lambda>d. nsol (f d)) ds)"
  by (induction ds) (simp_all add: nsol_nonneg)

lemma count_loop_exact:
  assumes bt: "\<And>s'. search_inv s' \<Longrightarrow> num_empty (sgrid s') < n \<Longrightarrow>
      \<exists>k. count_backtrack n limit s' = Inr (k, s') \<and> 0 \<le> k \<and> k \<le> nsol (sgrid s') \<and>
         (k < limit \<longrightarrow> k = nsol (sgrid s'))"
    and s: "search_inv s" "r < 9" "c < 9" "sgrid s ! r ! c = 0" "num_empty (sgrid s) \<le> n"
    and ds: "set ds \<subseteq> set (digits_from_mask (candidates_mask (srow s) (scol s) (sbox s) r c))"
    and tot: "0 \<le> tot"
  shows "\<exists>k. count_loop n limit r c ds tot s = Inr (k, s) \<and> tot \<le> k \<and>
     k \<le> tot + sum_list (map (\<lambda>d. nsol (set_cell (sgrid s) r c d)) ds) \<and>
     (k < limit \<longrightarrow> k = tot + sum_list (map (\<lambda>d. nsol (set_cell (sgrid s) r c d)) ds))"
  using ds tot
proof (induction ds arbitrary: tot)
  case Nil
  then show ?case by simp
next
  case (Cons d ds)
  let ?f = "\<lambda>d. nsol (set_cell (sgrid s) r c d)"
  have sh: "nine_by_nine (sgrid s)" using s(1) by (simp add: search_inv_def well_formed_shape)
  have d: "d \<in> set (digits_from_mask (candidates_mask (srow s) (scol s) (sbox s) r c))"
    using Cons.prems by simp
  have "d \<noteq> 0" using legal_digit_bits(1)[OF d] by simp
  then have "num_empty (sgrid (place s r c d)) < n"
    using num_empty_set_cell[OF sh s(2-4), of d] s(5) by (simp add: sgrid_place)
  moreover have "search_inv (place s r c d)" by (rule search_inv_place[OF s(1-4) d])
  ultimately obtain k where k: "count_backtrack n limit (place s r c d) = Inr (k, place s r c d)"
    and k0: "0 \<le> k" and kN: "k \<le> ?f d" and kex: "k < limit \<longrightarrow> k = ?f d"
    using bt[of "place s r c d"] by (auto simp: sgrid_place)
  have u: "unplace (place s r c d) r c d = s" by (rule unplace_place[OF s(4) d])
  have rest: "0 \<le> sum_list (map ?f ds)" by (rule sum_list_nsol_nonneg)
  show ?case
  proof (cases "limit \<le> tot + k")
    case True
    have "count_loop n limit r c (d # ds) tot s = Inr (tot + k, s)"
      using True by (simp add: k u Let_def)
    moreover have "tot + k \<le> tot + sum_list (map ?f (d # ds))" using kN rest by simp
    ultimately show ?thesis using k0 True by simp
  next
    case False
    have sub: "set ds \<subseteq> set (digits_from_mask (candidates_mask (srow s) (scol s) (sbox s) r c))"
      using Cons.prems by simp
    have t0: "0 \<le> tot + k" using Cons.prems(2) k0 by simp
    from Cons.IH[OF sub t0] obtain k' where
      l: "count_loop n limit r c ds (tot + k) s = Inr (k', s)" and a: "tot + k \<le> k'"
      and b: "k' \<le> tot + k + sum_list (map ?f ds)"
      and e: "k' < limit \<longrightarrow> k' = tot + k + sum_list (map ?f ds)" by blast
    have kk: "k = ?f d" using kex False Cons.prems(2) by simp
    have "count_loop n limit r c (d # ds) tot s = Inr (k', s)"
      using False by (simp add: k u Let_def l)
    moreover have "tot \<le> k'" using a k0 by simp
    moreover have "k' \<le> tot + sum_list (map ?f (d # ds))" using b kk by (simp add: add.assoc)
    moreover have "k' < limit \<longrightarrow> k' = tot + sum_list (map ?f (d # ds))"
      using e kk by (auto simp: add.assoc)
    ultimately show ?thesis by blast
  qed
qed

lemma count_backtrack_exact:
  "search_inv s \<Longrightarrow> num_empty (sgrid s) < n \<Longrightarrow>
     \<exists>k. count_backtrack n limit s = Inr (k, s) \<and> 0 \<le> k \<and> k \<le> nsol (sgrid s) \<and>
        (k < limit \<longrightarrow> k = nsol (sgrid s))"
proof (induction n arbitrary: s)
  case 0
  then show ?case by simp
next
  case (Suc n)
  have wf: "well_formed (sgrid s)" using Suc.prems(1) by (simp add: search_inv_def)
  show ?case
  proof (cases "find_mrv_cell (sgrid s) (srow s) (scol s) (sbox s)")
    case None
    have "solutions (sgrid s) = {sgrid s}"
      by (rule solutions_full[OF wf find_mrv_cell_None[OF None]])
    then have "nsol (sgrid s) = 1" by (simp add: nsol_def)
    then show ?thesis using None by simp
  next
    case (Some cell)
    obtain r c m where cell: "cell = (r, c, m)" by (cases cell)
    note f = find_mrv_cell_Some[OF Some[unfolded cell]]
    have rc: "r < 9" "c < 9" and e: "sgrid s ! r ! c = 0"
      and m: "m = candidates_mask (srow s) (scol s) (sbox s) r c" using f by simp_all
    note sp = nsol_split[OF Suc.prems(1) rc e, folded m]
    show ?thesis
    proof (cases "m = 0")
      case True
      have "nsol (sgrid s) = 0" using sp by (simp add: True digits_from_mask_0)
      then show ?thesis by (simp add: Some cell True)
    next
      case False
      have le: "num_empty (sgrid s) \<le> n" using Suc.prems(2) by simp
      have sub: "set (digits_from_mask m) \<subseteq>
           set (digits_from_mask (candidates_mask (srow s) (scol s) (sbox s) r c))"
        using m by simp
      have z: "(0::int) \<le> 0" by simp
      from count_loop_exact[of n limit s r c "digits_from_mask m" 0, OF Suc.IH Suc.prems(1) rc e le sub z]
      obtain k where "count_loop n limit r c (digits_from_mask m) 0 s = Inr (k, s)" "0 \<le> k"
        "k \<le> nsol (sgrid s)" "k < limit \<longrightarrow> k = nsol (sgrid s)"
        using sp by auto
      then show ?thesis by (simp add: Some cell False)
    qed
  qed
qed

lemma count_solutions_exact:
  assumes "well_formed g" "81 < depth"
  shows "\<exists>k. count_solutions room depth g limit = Inr (k, g) \<and> 0 \<le> k \<and> k \<le> nsol g \<and>
        (k < limit \<longrightarrow> k = nsol g)"
proof -
  obtain row col box where b: "build_masks room g = Inr (row, col, box)"
    and mi: "masks_inv g row col box"
    using build_masks_ok[OF well_formed_shape[OF assms(1)] well_formed_in_range[OF assms(1)]] by blast
  let ?s = "\<lparr>sgrid = g, srow = row, scol = col, sbox = box\<rparr>"
  have si: "search_inv ?s" using assms(1) mi by (simp add: search_inv_def)
  have ne: "num_empty (sgrid ?s) < depth" using num_empty_le[of g] assms(2) by simp
  from count_backtrack_exact[OF si ne, of limit] obtain k where
    "count_backtrack depth limit ?s = Inr (k, ?s)" "0 \<le> k" "k \<le> nsol g" "k < limit \<longrightarrow> k = nsol g"
    by auto
  then show ?thesis by (simp add: count_solutions_def b)
qed

subsection \<open>The solving search finds a solution when there is one\<close>

lemma solutions_no_legal:
  assumes "search_inv s" "r < 9" "c < 9" "sgrid s ! r ! c = 0"
    and "\<And>d. d \<in> set (digits_from_mask (candidates_mask (srow s) (scol s) (sbox s) r c)) \<Longrightarrow>
       solutions (set_cell (sgrid s) r c d) = {}"
  shows "solutions (sgrid s) = {}"
proof -
  have wf: "well_formed (sgrid s)" and m: "masks_inv (sgrid s) (srow s) (scol s) (sbox s)"
    using assms(1) by (simp_all add: search_inv_def)
  have "solutions (set_cell (sgrid s) r c d) = {}" if "legal (sgrid s) r c d" for d
    using assms(5)[of d] legal_iff[OF m assms(2,3), of d] that by simp
  then show ?thesis unfolding solutions_split[OF wf assms(2,3,4)] by blast
qed

lemma solve_loop_correct:
  assumes bt: "\<And>s' g. search_inv s' \<Longrightarrow> num_empty (sgrid s') < n \<Longrightarrow>
      \<exists>ok s'' g'. solve_backtrack ops n s' g = Inr (ok, s'', g') \<and>
         (ok \<longrightarrow> sgrid s'' \<in> solutions (sgrid s')) \<and>
         (\<not> ok \<longrightarrow> s'' = s' \<and> solutions (sgrid s') = {})"
    and s: "search_inv s" "r < 9" "c < 9" "sgrid s ! r ! c = 0" "num_empty (sgrid s) \<le> n"
    and ds: "set ds \<subseteq> set (digits_from_mask (candidates_mask (srow s) (scol s) (sbox s) r c))"
  shows "\<exists>ok s'' g'. solve_loop ops n r c ds s g = Inr (ok, s'', g') \<and>
         (ok \<longrightarrow> sgrid s'' \<in> solutions (sgrid s)) \<and>
         (\<not> ok \<longrightarrow> s'' = s \<and> (\<forall>d \<in> set ds. solutions (set_cell (sgrid s) r c d) = {}))"
  using ds
proof (induction ds arbitrary: g)
  case Nil
  then show ?case by auto
next
  case (Cons d ds)
  have sh: "nine_by_nine (sgrid s)" using s(1) by (simp add: search_inv_def well_formed_shape)
  have d: "d \<in> set (digits_from_mask (candidates_mask (srow s) (scol s) (sbox s) r c))"
    using Cons.prems by simp
  have "d \<noteq> 0" using legal_digit_bits(1)[OF d] by simp
  then have "num_empty (sgrid (place s r c d)) < n"
    using num_empty_set_cell[OF sh s(2-4), of d] s(5) by (simp add: sgrid_place)
  moreover have "search_inv (place s r c d)" by (rule search_inv_place[OF s(1-4) d])
  ultimately obtain ok s'' g' where
    k: "solve_backtrack ops n (place s r c d) g = Inr (ok, s'', g')"
    and yes: "ok \<longrightarrow> sgrid s'' \<in> solutions (set_cell (sgrid s) r c d)"
    and no: "\<not> ok \<longrightarrow> s'' = place s r c d \<and> solutions (set_cell (sgrid s) r c d) = {}"
    using bt[of "place s r c d" g] by (auto simp: sgrid_place)
  show ?case
  proof (cases ok)
    case True
    have "sgrid s'' \<in> solutions (sgrid s)"
      using yes True solutions_set_cell_sub[OF sh s(2-4), of d] by blast
    then show ?thesis using True by (auto simp: k)
  next
    case False
    then have u: "unplace s'' r c d = s" using no by (simp add: unplace_place[OF s(4) d])
    have sub: "set ds \<subseteq> set (digits_from_mask (candidates_mask (srow s) (scol s) (sbox s) r c))"
      using Cons.prems by simp
    from Cons.IH[OF sub, of g'] obtain ok2 s2 g2 where
      l: "solve_loop ops n r c ds s g' = Inr (ok2, s2, g2)"
      and a: "ok2 \<longrightarrow> sgrid s2 \<in> solutions (sgrid s)"
      and b: "\<not> ok2 \<longrightarrow> s2 = s \<and> (\<forall>d \<in> set ds. solutions (set_cell (sgrid s) r c d) = {})"
      by blast
    have "solve_loop ops n r c (d # ds) s g = Inr (ok2, s2, g2)"
      using False by (simp add: k u l)
    moreover have "\<not> ok2 \<longrightarrow> s2 = s \<and> (\<forall>d \<in> set (d # ds). solutions (set_cell (sgrid s) r c d) = {})"
      using b no False by simp
    ultimately show ?thesis using a by blast
  qed
qed

lemma solve_backtrack_correct:
  assumes "rng_ok ops"
  shows "search_inv s \<Longrightarrow> num_empty (sgrid s) < n \<Longrightarrow>
     \<exists>ok s'' g'. solve_backtrack ops n s g = Inr (ok, s'', g') \<and>
         (ok \<longrightarrow> sgrid s'' \<in> solutions (sgrid s)) \<and>
         (\<not> ok \<longrightarrow> s'' = s \<and> solutions (sgrid s) = {})"
proof (induction n arbitrary: s g)
  case 0
  then show ?case by simp
next
  case (Suc n)
  have wf: "well_formed (sgrid s)" using Suc.prems(1) by (simp add: search_inv_def)
  show ?case
  proof (cases "find_mrv_cell (sgrid s) (srow s) (scol s) (sbox s)")
    case None
    have "solutions (sgrid s) = {sgrid s}"
      by (rule solutions_full[OF wf find_mrv_cell_None[OF None]])
    then show ?thesis using None by auto
  next
    case (Some cell)
    obtain r c m where cell: "cell = (r, c, m)" by (cases cell)
    note f = find_mrv_cell_Some[OF Some[unfolded cell]]
    have rc: "r < 9" "c < 9" and e: "sgrid s ! r ! c = 0"
      and m: "m = candidates_mask (srow s) (scol s) (sbox s) r c" using f by simp_all
    show ?thesis
    proof (cases "m = 0")
      case True
      have "solutions (sgrid s) = {}"
        by (rule solutions_no_legal[OF Suc.prems(1) rc e])
           (simp add: m[symmetric] True digits_from_mask_0)
      then show ?thesis by (auto simp: Some cell True)
    next
      case False
      obtain ds g1 where sh: "digits_from_mask_rng ops m g = (ds, g1)"
        by (cases "digits_from_mask_rng ops m g")
      have st: "set ds = set (digits_from_mask m)"
        using set_shuffle[OF assms, of g "digits_from_mask m"] sh
        by (simp add: digits_from_mask_rng_def)
      then have sub: "set ds \<subseteq>
           set (digits_from_mask (candidates_mask (srow s) (scol s) (sbox s) r c))"
        using m by simp
      have le: "num_empty (sgrid s) \<le> n" using Suc.prems(2) by simp
      from solve_loop_correct[of n ops s r c ds g1, OF Suc.IH Suc.prems(1) rc e le sub]
      obtain ok s2 g2 where l: "solve_loop ops n r c ds s g1 = Inr (ok, s2, g2)"
        and a: "ok \<longrightarrow> sgrid s2 \<in> solutions (sgrid s)"
        and b: "\<not> ok \<longrightarrow> s2 = s \<and> (\<forall>d \<in> set ds. solutions (set_cell (sgrid s) r c d) = {})"
        by blast
      have "solutions (sgrid s) = {}" if "\<not> ok"
        by (rule solutions_no_legal[OF Suc.prems(1) rc e]) (use b that st m in simp)
      moreover have "solve_backtrack ops (Suc n) s g = Inr (ok, s2, g2)"
        by (simp add: Some cell False sh l)
      ultimately show ?thesis using a b by blast
    qed
  qed
qed

lemma solve_one_correct:
  assumes "well_formed g" "rng_ok ops" "81 < depth"
  shows "\<exists>ok g' rng'. solve_one ops room depth g rng = Inr (ok, g', rng') \<and>
         (ok \<longrightarrow> g' \<in> solutions g) \<and> (\<not> ok \<longrightarrow> g' = g \<and> solutions g = {})"
proof -
  obtain row col box where b: "build_masks room g = Inr (row, col, box)"
    and mi: "masks_inv g row col box"
    using build_masks_ok[OF well_formed_shape[OF assms(1)] well_formed_in_range[OF assms(1)]] by blast
  let ?s = "\<lparr>sgrid = g, srow = row, scol = col, sbox = box\<rparr>"
  have si: "search_inv ?s" using assms(1) mi by (simp add: search_inv_def)
  have ne: "num_empty (sgrid ?s) < depth" using num_empty_le[of g] assms(3) by simp
  from solve_backtrack_correct[OF assms(2) si ne, of rng] obtain ok s2 g2 where
    "solve_backtrack ops depth ?s rng = Inr (ok, s2, g2)" "ok \<longrightarrow> sgrid s2 \<in> solutions g"
    "\<not> ok \<longrightarrow> s2 = ?s \<and> solutions g = {}"
    by auto
  then show ?thesis by (auto simp: solve_one_def b)
qed

subsection \<open>Generated grids and dug puzzles\<close>

lemma solutionsD: "t \<in> solutions g \<Longrightarrow> complete_valid t \<and> agrees g t"
  by (simp add: solutions_def)

lemma well_formed_empty: "well_formed (replicate 9 (replicate 9 0))"
  by code_simp

lemma solutions_empty_grid: "solutions (replicate 9 (replicate 9 0)) \<noteq> {}"
proof -
  have "complete_valid example_solution" by code_simp
  moreover have "agrees (replicate 9 (replicate 9 0)) example_solution" by code_simp
  ultimately have "example_solution \<in> solutions (replicate 9 (replicate 9 0))"
    by (simp add: solutions_def)
  then show ?thesis by blast
qed

lemma generate_full_grid_ok:
  assumes "rng_ok ops" "81 < depth"
  shows "\<exists>g. generate_full_grid ops room depth entropy seed = Inr g \<and> complete_valid g"
proof -
  let ?e = "replicate 9 (replicate 9 (0::int))"
  from solve_one_correct[OF well_formed_empty assms, of room "Random ops entropy seed"]
  obtain ok g' rng' where s: "solve_one ops room depth ?e (Random ops entropy seed) = Inr (ok, g', rng')"
    and a: "ok \<longrightarrow> g' \<in> solutions ?e" and b: "\<not> ok \<longrightarrow> g' = ?e \<and> solutions ?e = {}"
    by blast
  have ok: ok using b solutions_empty_grid by blast
  then have "complete_valid g'" using a solutionsD by blast
  moreover have "generate_full_grid ops room depth entropy seed = Inr g'"
    using ok by (simp add: generate_full_grid_def s)
  ultimately show ?thesis by blast
qed

lemma dug_well_formed:
  assumes cv: "complete_valid full" and sh: "nine_by_nine p"
    and ag: "\<forall>r < 9. \<forall>c < 9. p ! r ! c \<noteq> 0 \<longrightarrow> p ! r ! c = full ! r ! c"
  shows "well_formed p"
proof -
  have frg: "\<And>r c. r < 9 \<Longrightarrow> c < 9 \<Longrightarrow> 1 \<le> full ! r ! c \<and> full ! r ! c \<le> 9"
    and fnc: "no_clash full" using cv by (simp_all add: complete_valid_iff)
  have rg: "0 \<le> p ! r ! c \<and> p ! r ! c \<le> 9" if b: "r < 9" "c < 9" for r c
  proof (cases "p ! r ! c = 0")
    case True then show ?thesis by simp
  next
    case False
    then have "p ! r ! c = full ! r ! c" using ag b by blast
    then show ?thesis using frg[OF b] by simp
  qed
  have "no_clash p"
    unfolding no_clash_def
  proof (intro allI impI)
    fix r c r' c' :: nat
    assume b: "r < 9" "c < 9" "r' < 9" "c' < 9"
      and h: "p ! r ! c \<noteq> 0 \<and> p ! r ! c = p ! r' ! c' \<and>
        (r = r' \<or> c = c' \<or> box_index r c = box_index r' c')"
    have e1: "p ! r ! c = full ! r ! c" using ag b(1,2) h by blast
    have "p ! r' ! c' \<noteq> 0" using h by simp
    then have e2: "p ! r' ! c' = full ! r' ! c'" using ag b(3,4) by blast
    have nz: "full ! r ! c \<noteq> 0" using e1 h by simp
    have eq: "full ! r ! c = full ! r' ! c'" using e1 e2 h by simp
    have pe: "peers (r, c) (r', c')" using h by (simp add: peers_def)
    show "r = r' \<and> c = c'" by (rule no_clashD[OF fnc b nz eq pe])
  qed
  then show ?thesis using sh rg by (simp add: well_formed_iff)
qed

lemma dug_unique:
  assumes cv: "complete_valid full" and sh: "nine_by_nine p"
    and ag: "\<forall>r < 9. \<forall>c < 9. p ! r ! c \<noteq> 0 \<longrightarrow> p ! r ! c = full ! r ! c"
    and depth: "81 < depth" and cnt: "count_solutions room depth p 2 = Inr (1, p)"
  shows "solutions p = {full}"
proof -
  have wf: "well_formed p" by (rule dug_well_formed[OF cv sh ag])
  have "agrees p full" unfolding agrees_def using ag by (auto simp: in_cells81)
  then have mem: "full \<in> solutions p" using cv by (simp add: solutions_def)
  from count_solutions_exact[OF wf depth, of room 2] cnt have "nsol p = 1" by auto
  then have "card (solutions p) = 1" by (simp add: nsol_def)
  then obtain x where "solutions p = {x}" by (rule card_1_singletonE)
  then show ?thesis using mem by simp
qed

lemma example_puzzle_three: "card (solutions example_puzzle) = 3"
proof -
  have wf: "well_formed example_puzzle" by code_simp
  have c: "count_solutions 0 82 example_puzzle 100 = Inr (3, example_puzzle)" by code_simp
  from count_solutions_exact[OF wf, of 82 0 100] c have "nsol example_puzzle = 3" by auto
  then show ?thesis by (simp add: nsol_def)
qed

lemma example_puzzle_cap2: "count_solutions 0 82 example_puzzle 2 = Inr (3, example_puzzle)"
  by code_simp

lemma remove_cells_unique_unique:
  assumes cv: "complete_valid full" and ok: "rng_ok ops" and depth: "81 < depth"
  shows "\<exists>puzzle rng'. remove_cells_unique ops room depth full rng symmetry = Inr (puzzle, rng') \<and>
       count_solutions room depth puzzle 2 = Inr (1, puzzle) \<and> solutions puzzle = {full}"
proof -
  from remove_cells_unique_ok[OF assms, of room rng symmetry] obtain puzzle rng' where
    r: "remove_cells_unique ops room depth full rng symmetry = Inr (puzzle, rng')"
    and sh: "nine_by_nine puzzle" and cnt: "count_solutions room depth puzzle 2 = Inr (1, puzzle)"
    and ag: "\<forall>r < 9. \<forall>c < 9. puzzle ! r ! c \<noteq> 0 \<longrightarrow> puzzle ! r ! c = full ! r ! c"
    by blast
  have "solutions puzzle = {full}" by (rule dug_unique[OF cv sh ag depth cnt])
  then show ?thesis using r cnt by blast
qed

lemma count_solutions_cases:
  assumes "well_formed g" "81 < depth"
  shows "\<exists>k. count_solutions room depth g limit = Inr (k, g) \<and> 0 \<le> k \<and>
     (if int (card (solutions g)) < limit then k = int (card (solutions g))
      else limit \<le> k \<and> k \<le> int (card (solutions g)))"
proof -
  from count_solutions_exact[OF assms, of room limit] obtain k where
    c: "count_solutions room depth g limit = Inr (k, g)" and k0: "0 \<le> k"
    and kN: "k \<le> int (card (solutions g))"
    and ke: "k < limit \<longrightarrow> k = int (card (solutions g))"
    unfolding nsol_def by blast
  have "if int (card (solutions g)) < limit then k = int (card (solutions g))
      else limit \<le> k \<and> k \<le> int (card (solutions g))"
    using kN ke by auto
  then show ?thesis using c k0 by blast
qed

lemma solve_one_cases:
  assumes "well_formed g" "rng_ok ops" "81 < depth"
  shows "\<exists>ok g' rng'. solve_one ops room depth g rng = Inr (ok, g', rng') \<and>
     (ok \<longleftrightarrow> solutions g \<noteq> {}) \<and> (ok \<longrightarrow> complete_valid g' \<and> agrees g g')"
proof -
  from solve_one_correct[OF assms, of room rng] obtain ok g' rng' where
    s: "solve_one ops room depth g rng = Inr (ok, g', rng')"
    and a: "ok \<longrightarrow> g' \<in> solutions g" and b: "\<not> ok \<longrightarrow> g' = g \<and> solutions g = {}"
    by blast
  have "ok \<longleftrightarrow> solutions g \<noteq> {}" using a b by blast
  moreover have "ok \<longrightarrow> complete_valid g' \<and> agrees g g'" using a solutionsD by blast
  ultimately show ?thesis using s by blast
qed

section \<open>The claims\<close>

text \<open>
  C1: for every complete valid grid, every generator state and both settings of the
  symmetry flag, \<open>remove_cells_unique\<close> returns, \<open>count_solutions\<close> with cap 2 gives 1 on
  the puzzle it returns, and that puzzle has exactly one solution, the grid it was dug from.
\<close>

theorem digger_keeps_unique_solution:
  assumes "complete_valid full" and "rng_ok ops" and "81 < depth"
  shows "\<exists>puzzle rng'. remove_cells_unique ops room depth full rng symmetry = Inr (puzzle, rng') \<and>
       count_solutions room depth puzzle 2 = Inr (1, puzzle) \<and> solutions puzzle = {full}"
  by (rule remove_cells_unique_unique[OF assms])

theorem digger_keeps_unique_solution_witness:
  "(\<exists>puzzle rng'. remove_cells_unique example_ops 0 82 example_solution (0::nat) False = Inr (puzzle, rng') \<and>
       count_solutions 0 82 puzzle 2 = Inr (1, puzzle) \<and> solutions puzzle = {example_solution}) \<and>
   (\<exists>puzzle rng'. remove_cells_unique example_ops 0 82 example_solution (0::nat) True = Inr (puzzle, rng') \<and>
       count_solutions 0 82 puzzle 2 = Inr (1, puzzle) \<and> solutions puzzle = {example_solution})"
proof -
  have cv: "complete_valid example_solution" by code_simp
  have d: "(81::nat) < 82" by simp
  show ?thesis
    by (intro conjI digger_keeps_unique_solution[OF cv rng_ok_example_ops d])
qed

text \<open>
  C2, as stated: the result of \<open>count_solutions\<close> lies in \<open>[0, cap]\<close> and is the cap itself
  when the grid has at least that many solutions. The loop adds the whole result of a
  recursive call to its total before it compares the total with the cap, so the total can
  go past the cap: \<open>example_puzzle\<close> has three solutions, and with cap 2 the result is 3.
  There the first five cells chosen have one candidate each; the sixth, \<open>(2, 6)\<close>, has the
  candidates 3 and 5. Digit 3 leads to one solution, so the total is 1, below the cap;
  digit 5 leads to two, the call for it returns 2, and the total becomes 3.
\<close>

theorem count_exceeds_cap:
  "well_formed example_puzzle \<and> card (solutions example_puzzle) = 3 \<and>
   count_solutions 0 82 example_puzzle 2 = Inr (3, example_puzzle)"
proof -
  have "well_formed example_puzzle" by code_simp
  then show ?thesis using example_puzzle_three example_puzzle_cap2 by simp
qed

text \<open>
  C2, amended: for every well-formed grid and every cap, \<open>count_solutions\<close> returns a
  number that is not negative; it is the number of solutions when that number is below the
  cap, and otherwise it is at least the cap and at most the number of solutions.
\<close>

theorem count_solutions_bounds:
  assumes "well_formed g" and "81 < depth"
  shows "\<exists>k. count_solutions room depth g limit = Inr (k, g) \<and> 0 \<le> k \<and>
     (if int (card (solutions g)) < limit then k = int (card (solutions g))
      else limit \<le> k \<and> k \<le> int (card (solutions g)))"
  by (rule count_solutions_cases[OF assms])

theorem count_solutions_bounds_witness:
  "(\<exists>k. count_solutions 0 82 example_puzzle 2 = Inr (k, example_puzzle) \<and> 0 \<le> k \<and>
     (if int (card (solutions example_puzzle)) < 2 then k = int (card (solutions example_puzzle))
      else 2 \<le> k \<and> k \<le> int (card (solutions example_puzzle)))) \<and>
   (\<exists>k. count_solutions 0 82 example_puzzle 100 = Inr (k, example_puzzle) \<and> 0 \<le> k \<and>
     (if int (card (solutions example_puzzle)) < 100 then k = int (card (solutions example_puzzle))
      else 100 \<le> k \<and> k \<le> int (card (solutions example_puzzle))))"
proof -
  have wf: "well_formed example_puzzle" by code_simp
  have d: "(81::nat) < 82" by simp
  show ?thesis by (intro conjI count_solutions_bounds[OF wf d])
qed

text \<open>
  C3: for every seed, and for a call without one, \<open>generate_full_grid\<close> returns a grid (the
  branch that raises RuntimeError is not taken), and in that grid every row, every column
  and every box holds each digit 1..9 exactly once.
\<close>

theorem generate_full_grid_complete_valid:
  assumes "rng_ok ops" and "81 < depth"
  shows "\<exists>g. generate_full_grid ops room depth entropy seed = Inr g \<and> complete_valid g"
  by (rule generate_full_grid_ok[OF assms])

theorem generate_full_grid_complete_valid_witness:
  "(\<exists>g. generate_full_grid example_ops 0 82 (7::nat) (Some 42) = Inr g \<and> complete_valid g) \<and>
   (\<exists>g. generate_full_grid example_ops 0 82 (7::nat) None = Inr g \<and> complete_valid g)"
proof -
  have d: "(81::nat) < 82" by simp
  show ?thesis by (intro conjI generate_full_grid_complete_valid[OF rng_ok_example_ops d])
qed

text \<open>
  C4: for every well-formed grid and every generator state, \<open>solve_one\<close> returns; it
  returns true exactly when the grid has a completion, and then the grid it leaves is a
  complete valid grid that agrees with the non-zero cells of the input.
\<close>

theorem solve_one_sound_complete:
  assumes "well_formed g" and "rng_ok ops" and "81 < depth"
  shows "\<exists>ok g' rng'. solve_one ops room depth g rng = Inr (ok, g', rng') \<and>
     (ok \<longleftrightarrow> solutions g \<noteq> {}) \<and> (ok \<longrightarrow> complete_valid g' \<and> agrees g g')"
  by (rule solve_one_cases[OF assms])

theorem solve_one_sound_complete_witness:
  "\<exists>ok g' rng'. solve_one example_ops 0 82 example_puzzle (0::nat) = Inr (ok, g', rng') \<and>
     (ok \<longleftrightarrow> solutions example_puzzle \<noteq> {}) \<and>
     (ok \<longrightarrow> complete_valid g' \<and> agrees example_puzzle g')"
proof -
  have wf: "well_formed example_puzzle" by code_simp
  have d: "(81::nat) < 82" by simp
  show ?thesis by (rule solve_one_sound_complete[OF wf rng_ok_example_ops d])
qed




text \<open>
  C6: both backtracking searches terminate on every well-formed input. A recursive call
  is made on a grid with strictly fewer empty cells than its caller's, a grid has at most
  81 empty cells, and a budget of nested calls larger than the number of empty cells is
  never exhausted: both searches return (with the state restored, for the counting one).
\<close>

theorem backtracking_terminates:
  assumes "well_formed g" and "rng_ok ops"
  shows "\<exists>row col box. build_masks room g = Inr (row, col, box) \<and>
     (let s = \<lparr>sgrid = g, srow = row, scol = col, sbox = box\<rparr> in
        num_empty g \<le> 81 \<and>
        (\<forall>n. num_empty g < n \<longrightarrow>
           (\<exists>k. count_backtrack n limit s = Inr (k, s)) \<and>
           (\<exists>ok s' rng'. solve_backtrack ops n s rng = Inr (ok, s', rng')))) \<and>
     (\<forall>s r c m d. nine_by_nine (sgrid s) \<and>
        find_mrv_cell (sgrid s) (srow s) (scol s) (sbox s) = Some (r, c, m) \<and>
        d \<in> set (digits_from_mask m) \<longrightarrow>
        num_empty (sgrid (place s r c d)) < num_empty (sgrid s))"
proof -
  have sh: "nine_by_nine g" using assms(1) by (rule well_formed_shape)
  have nn: "cells_in_range room g" using assms(1) by (rule well_formed_in_range)
  obtain row col box where b: "build_masks room g = Inr (row, col, box)"
    using build_masks_ok[OF sh nn] by blast
  let ?s = "\<lparr>sgrid = g, srow = row, scol = col, sbox = box\<rparr>"
  have ret: "(\<exists>k. count_backtrack n limit ?s = Inr (k, ?s)) \<and>
      (\<exists>ok s' rng'. solve_backtrack ops n ?s rng = Inr (ok, s', rng'))" if "num_empty g < n" for n
  proof
    show "\<exists>k. count_backtrack n limit ?s = Inr (k, ?s)"
      using count_backtrack_frame[of ?s n limit] sh that by simp
    show "\<exists>ok s' rng'. solve_backtrack ops n ?s rng = Inr (ok, s', rng')"
      using solve_backtrack_frame[OF assms(2), of ?s n rng] sh that by auto
  qed
  have dec: "num_empty (sgrid (place s r c d)) < num_empty (sgrid s)"
    if "nine_by_nine (sgrid s)"
      and "find_mrv_cell (sgrid s) (srow s) (scol s) (sbox s) = Some (r, c, m)"
      and "d \<in> set (digits_from_mask m)" for s r c m d
  proof -
    note f = find_mrv_cell_Some[OF that(2)]
    have "d \<noteq> 0" using that(3) by (auto simp: in_digits_from_mask)
    then show ?thesis using num_empty_set_cell[OF that(1), of r c d] f by (simp add: sgrid_place)
  qed
  show ?thesis using b ret dec num_empty_le[of g] by (simp add: Let_def)
qed

theorem backtracking_terminates_witness:
  "\<exists>row col box. build_masks 0 example_puzzle = Inr (row, col, box) \<and>
     (let s = \<lparr>sgrid = example_puzzle, srow = row, scol = col, sbox = box\<rparr> in
        num_empty example_puzzle \<le> 81 \<and>
        (\<forall>n. num_empty example_puzzle < n \<longrightarrow>
           (\<exists>k. count_backtrack n 2 s = Inr (k, s)) \<and>
           (\<exists>ok s' rng'. solve_backtrack example_ops n s (0::nat) = Inr (ok, s', rng')))) \<and>
     (\<forall>s r c m d. nine_by_nine (sgrid s) \<and>
        find_mrv_cell (sgrid s) (srow s) (scol s) (sbox s) = Some (r, c, m) \<and>
        d \<in> set (digits_from_mask m) \<longrightarrow>
        num_empty (sgrid (place s r c d)) < num_empty (sgrid s))"
proof -
  have wf: "well_formed example_puzzle" by code_simp
  show ?thesis by (rule backtracking_terminates[OF wf rng_ok_example_ops])
qed

text \<open>
  C7: for every well-formed grid, after \<open>build_masks\<close>, placing any legal digit (a digit of
  the candidate mask) at any empty cell and unplacing it at once leaves the three mask
  lists as they were.
\<close>

theorem place_unplace_restores_masks:
  assumes "well_formed g"
  shows "\<exists>row col box. build_masks room g = Inr (row, col, box) \<and>
     (\<forall>r < 9. \<forall>c < 9. \<forall>d.
        g ! r ! c = 0 \<and> d \<in> set (digits_from_mask (candidates_mask row col box r c)) \<longrightarrow>
        (let s = \<lparr>sgrid = g, srow = row, scol = col, sbox = box\<rparr>;
             s' = unplace (place s r c d) r c d
         in srow s' = row \<and> scol s' = col \<and> sbox s' = box))"
proof -
  obtain row col box where b: "build_masks room g = Inr (row, col, box)"
    using build_masks_ok[OF well_formed_shape[OF assms] well_formed_in_range[OF assms]] by blast
  let ?s = "\<lparr>sgrid = g, srow = row, scol = col, sbox = box\<rparr>"
  have "unplace (place ?s r c d) r c d = ?s"
    if "g ! r ! c = 0" "d \<in> set (digits_from_mask (candidates_mask row col box r c))" for r c d
    using unplace_place[of ?s r c d] that by simp
  then show ?thesis using b by (simp add: Let_def)
qed

theorem place_unplace_restores_masks_witness:
  "\<exists>row col box. build_masks 0 example_puzzle = Inr (row, col, box) \<and>
     (\<forall>r < 9. \<forall>c < 9. \<forall>d.
        example_puzzle ! r ! c = 0 \<and>
        d \<in> set (digits_from_mask (candidates_mask row col box r c)) \<longrightarrow>
        (let s = \<lparr>sgrid = example_puzzle, srow = row, scol = col, sbox = box\<rparr>;
             s' = unplace (place s r c d) r c d
         in srow s' = row \<and> scol s' = col \<and> sbox s' = box))"
proof -
  have wf: "well_formed example_puzzle" by code_simp
  show ?thesis by (rule place_unplace_restores_masks[OF wf])
qed

text \<open>
  C8: with symmetric digging, for every 9x9 grid that \<open>build_masks\<close> accepts, the digger
  returns, and wherever it removed a cell \<open>(r, c)\<close> (the cell is filled in the input and
  empty in the puzzle) the cell \<open>(8 - r, 8 - c)\<close> is empty in the puzzle too. The pair of the
  centre \<open>(4, 4)\<close> is the centre alone, and the step that visits it changes no other cell.
\<close>

theorem symmetric_digging_pairs:
  assumes "nine_by_nine full" and "cells_in_range room full" and "rng_ok ops" and "81 < depth"
  shows "(\<exists>puzzle rng'. remove_cells_unique ops room depth full rng True = Inr (puzzle, rng') \<and>
       (\<forall>r < 9. \<forall>c < 9. full ! r ! c \<noteq> 0 \<and> puzzle ! r ! c = 0 \<longrightarrow>
          puzzle ! (8 - r) ! (8 - c) = 0)) \<and>
     paired True 4 4 = [(4, 4)] \<and>
     (\<exists>p'. dig_step room depth True full (4, 4) = Inr p' \<and>
        (\<forall>r < 9. \<forall>c < 9. (r, c) \<noteq> (4, 4) \<longrightarrow> p' ! r ! c = full ! r ! c))"
proof (intro conjI)
  show "\<exists>puzzle rng'. remove_cells_unique ops room depth full rng True = Inr (puzzle, rng') \<and>
       (\<forall>r < 9. \<forall>c < 9. full ! r ! c \<noteq> 0 \<and> puzzle ! r ! c = 0 \<longrightarrow>
          puzzle ! (8 - r) ! (8 - c) = 0)"
    by (rule remove_cells_unique_sym[OF assms])
  show "paired True 4 4 = [(4, 4)]" by (rule paired_center)
  show "\<exists>p'. dig_step room depth True full (4, 4) = Inr p' \<and>
        (\<forall>r < 9. \<forall>c < 9. (r, c) \<noteq> (4, 4) \<longrightarrow> p' ! r ! c = full ! r ! c)"
    by (rule dig_step_center[OF assms(1,2,4)])
qed

theorem symmetric_digging_pairs_witness:
  "(\<exists>puzzle rng'. remove_cells_unique example_ops 0 82 example_solution (0::nat) True = Inr (puzzle, rng') \<and>
       (\<forall>r < 9. \<forall>c < 9. example_solution ! r ! c \<noteq> 0 \<and> puzzle ! r ! c = 0 \<longrightarrow>
          puzzle ! (8 - r) ! (8 - c) = 0)) \<and>
     paired True 4 4 = [(4, 4)] \<and>
     (\<exists>p'. dig_step 0 82 True example_solution (4, 4) = Inr p' \<and>
        (\<forall>r < 9. \<forall>c < 9. (r, c) \<noteq> (4, 4) \<longrightarrow> p' ! r ! c = example_solution ! r ! c))"
proof -
  have sh: "nine_by_nine example_solution" by code_simp
  have rg: "cells_in_range 0 example_solution" by code_simp
  have d: "(81::nat) < 82" by simp
  show ?thesis by (rule symmetric_digging_pairs[OF sh rg rng_ok_example_ops d])
qed

text \<open>
  C9: two calls of \<open>generate_puzzle\<close> with the same attempts, the same symmetry flag and
  the same integer seed return the same pair of puzzle and solution, hence the same number
  of blanks. The only input a call has besides its arguments is the entropy a generator
  made without a seed would draw; with an integer seed the result does not depend on it.
\<close>

theorem generate_puzzle_deterministic:
  "generate_puzzle ops room depth entropy1 attempts symmetry (Some seed) =
   generate_puzzle ops room depth entropy2 attempts symmetry (Some seed)"
  unfolding generate_puzzle_def Random_def
  by (simp add: attempts_loop_entropy[of ops room depth entropy1 _ _ _ _ _ _ entropy2])

text \<open>
  C10: for every well-formed grid and every cap, \<open>count_solutions\<close> returns with its grid
  argument unchanged, whichever exit the loop took.
\<close>

theorem count_solutions_leaves_grid:
  assumes "well_formed g" and "81 < depth"
  shows "\<exists>k. count_solutions room depth g limit = Inr (k, g)"
  by (rule count_solutions_total[OF well_formed_shape[OF assms(1)] well_formed_in_range[OF assms(1)]
        assms(2)])

theorem count_solutions_leaves_grid_witness:
  "\<exists>k. count_solutions 0 82 example_puzzle 2 = Inr (k, example_puzzle)"
proof -
  have wf: "well_formed example_puzzle" by code_simp
  have d: "(81::nat) < 82" by simp
  show ?thesis by (rule count_solutions_leaves_grid[OF wf d])
qed

end
